theory Spec2Isabelle
  imports Complex_Main "HOL-Library.AList"
begin

section \<open>Tokens, positions and exceptions\<close>

text \<open>
  A cell of the grid holds a Python string: a player's token, or the marker of an empty
  cell. A position is the tuple \<^verbatim>\<open>(row, col)\<close> of two Python integers. The exceptions
  the code can raise are values; the string they carry is the message.
\<close>

type_synonym token = string
type_synonym position = "int \<times> int"

datatype error =
    IndexError string
  | ValueError string
  | AssertionError string
  | TypeError string
  | KeyError
  | StopIteration

text \<open>
  \<^verbatim>\<open>self.empty = ' '\<close> is set by the constructor of every board and never assigned again.
  The source tests a cell against it with \<^verbatim>\<open>is\<close> (in \<^verbatim>\<open>winner\<close> and in
  \<^verbatim>\<open>recitfy_game_history\<close>), the model compares contents. The two tests agree on a board
  as long as no token whose content is that of the marker has been played: the cells with
  that content are then the unplayed ones, which hold the marker object itself. A played
  token that equals \<^verbatim>\<open>' '\<close> without being that object is told apart by the source and
  not by the model; the theorems on \<^verbatim>\<open>winner\<close> and on the histories are stated for
  tokens that differ from the marker.
\<close>

definition empty :: token where
  "empty = '' ''"

definition and_then :: "error + 'a \<Rightarrow> ('a \<Rightarrow> error + 'b) \<Rightarrow> error + 'b" where
  "and_then m f = (case m of Inl e \<Rightarrow> Inl e | Inr x \<Rightarrow> f x)"

fun map_result :: "('a \<Rightarrow> error + 'b) \<Rightarrow> 'a list \<Rightarrow> error + 'b list" where
  "map_result f [] = Inr []"
| "map_result f (x # xs) =
     and_then (f x) (\<lambda>y. and_then (map_result f xs) (\<lambda>ys. Inr (y # ys)))"

text \<open>Python's list indexing: a negative index counts from the end, anything else out of
  range raises. \<open>list_index n i\<close> is the place index \<open>i\<close> denotes in a list of length
  \<open>n\<close>, if any.\<close>

definition list_index :: "nat \<Rightarrow> int \<Rightarrow> nat option" where
  "list_index n i =
     (let j = (if i < 0 then int n + i else i)
      in if 0 \<le> j \<and> j < int n then Some (nat j) else None)"

definition getitem :: "'a list \<Rightarrow> int \<Rightarrow> error + 'a" where
  "getitem xs i =
     (case list_index (length xs) i of
        None \<Rightarrow> Inl (IndexError ''list index out of range'')
      | Some j \<Rightarrow> Inr (xs ! j))"

text \<open>\<^verbatim>\<open>str(n)\<close> for an integer, as the f-string of \<^verbatim>\<open>play\<close> formats it.\<close>

fun str_nat :: "nat \<Rightarrow> string" where
  "str_nat n =
     (if n < 10 then [''0123456789'' ! n]
      else str_nat (n div 10) @ [''0123456789'' ! (n mod 10)])"

declare str_nat.simps [simp del]

definition str_int :: "int \<Rightarrow> string" where
  "str_int i = (if i < 0 then CHR ''-'' # str_nat (nat (- i)) else str_nat (nat i))"

text \<open>\<^verbatim>\<open>str.lower()\<close> on the ASCII letters, which are the only ones the axis names use.\<close>

definition lower_char :: "char \<Rightarrow> char" where
  "lower_char c =
     (let n = (of_char c :: nat) in if 65 \<le> n \<and> n \<le> 90 then char_of (n + 32) else c)"

definition lower :: "string \<Rightarrow> string" where
  "lower s = map lower_char s"


section \<open>The board (board.py)\<close>

record Board =
  num_rows :: nat
  num_cols :: nat
  num_cells :: nat
  board :: "token list list"
  played_positions :: "position list"
  played_tokens :: "token list"
  empty_cells :: "position list"

text \<open>\<^verbatim>\<open>Board.__init__\<close>: the assertion, the grid of empty markers, the empty histories and
  the list of free cells \<^verbatim>\<open>[(i, j) for i in range(num_cols) for j in range(num_rows)]\<close>.
  The sizes are natural numbers here. The assertion of the source also lets two equal
  negative integers through (the board then has no cell, and \<^verbatim>\<open>num_cells\<close> is their
  product); such a call is not covered.\<close>

definition Board_init :: "nat \<Rightarrow> nat \<Rightarrow> error + Board" where
  "Board_init nr nc =
     (if nr \<noteq> nc
      then Inl (AssertionError ''Boards must be square (i.e. num rows = num columns)'')
      else Inr \<lparr> num_rows = nr, num_cols = nc, num_cells = nr * nc,
                 board = replicate nr (replicate nc empty),
                 played_positions = [], played_tokens = [],
                 empty_cells =
                   concat (map (\<lambda>i. map (\<lambda>j. (int i, int j)) [0..<nr]) [0..<nc]) \<rparr>)"

definition rows :: "Board \<Rightarrow> token list list" where
  "rows b = board b"

definition columns :: "Board \<Rightarrow> error + token list list" where
  "columns b =
     map_result (\<lambda>col.
       map_result (\<lambda>row.
         and_then (getitem (board b) (int row)) (\<lambda>r. getitem r (int col)))
       [0..<num_rows b])
     [0..<num_cols b]"

definition main_diagonal :: "Board \<Rightarrow> error + token list" where
  "main_diagonal b =
     map_result (\<lambda>i. and_then (getitem (board b) (int i)) (\<lambda>r. getitem r (int i)))
       [0..<num_rows b]"

definition anti_diagonal :: "Board \<Rightarrow> error + token list" where
  "anti_diagonal b =
     map_result (\<lambda>i.
       and_then (getitem (board b) (int i))
         (\<lambda>r. getitem r (int (num_cols b) - int i - 1)))
       [0..<num_rows b]"

text \<open>
  \<^verbatim>\<open>Board.play\<close> mutates the board and may raise half-way, so the model returns the
  exception (if any) together with the board as the call leaves it: the membership test
  raises before anything is written; \<^verbatim>\<open>self.board[row][col] = token\<close> raises before it
  writes; \<^verbatim>\<open>self.empty_cells.remove\<close> raises after the grid and both histories have
  been updated.
\<close>

definition already_played_message :: "int \<Rightarrow> int \<Rightarrow> string" where
  "already_played_message row col =
     ''Invalid Positon - ('' @ str_int (row + 1) @ '','' @ str_int (col + 1)
       @ '') has already been played!''"

definition Board_play :: "Board \<Rightarrow> int \<Rightarrow> int \<Rightarrow> token \<Rightarrow> error option \<times> Board" where
  "Board_play b row col token =
     (if (row, col) \<in> set (played_positions b)
      then (Some (IndexError (already_played_message row col)), b)
      else
        case list_index (length (board b)) row of
          None \<Rightarrow> (Some (IndexError ''list index out of range''), b)
        | Some r \<Rightarrow>
            (case list_index (length (board b ! r)) col of
               None \<Rightarrow> (Some (IndexError ''list assignment index out of range''), b)
             | Some c \<Rightarrow>
                 (let b1 = b \<lparr> board := (board b)[r := (board b ! r)[c := token]],
                               played_positions := played_positions b @ [(row, col)],
                               played_tokens := played_tokens b @ [token] \<rparr>
                  in if (row, col) \<in> set (empty_cells b)
                     then (None, b1 \<lparr> empty_cells := remove1 (row, col) (empty_cells b) \<rparr>)
                     else (Some (ValueError ''list.remove(x): x not in list''), b1))))"

text \<open>
  \<^verbatim>\<open>Board.winner\<close>. Each of its four blocks tests
  \<^verbatim>\<open>all(line[0] == cell for cell in line)\<close>, then reads \<^verbatim>\<open>line[0]\<close> and returns it
  unless it is the empty marker. On a line of length 0 the test is true (nothing is
  compared, \<^verbatim>\<open>line[0]\<close> is not evaluated inside it) and the read that follows raises;
  on any other line \<^verbatim>\<open>line[0]\<close> is the head. \<open>check_lines\<close> is that block run over a
  list of lines: \<open>Inr (Some w)\<close> is \<^verbatim>\<open>return w\<close>, \<open>Inr None\<close> is falling through to
  the next block.
\<close>

fun check_lines :: "token list list \<Rightarrow> error + token option" where
  "check_lines [] = Inr None"
| "check_lines (line # rest) =
     (case line of
        [] \<Rightarrow> Inl (IndexError ''list index out of range'')
      | winner # _ \<Rightarrow>
          if list_all (\<lambda>cell. winner = cell) line
          then (if winner \<noteq> empty then Inr (Some winner) else check_lines rest)
          else check_lines rest)"

definition or_else ::
  "error + token option \<Rightarrow> (error + token option) \<Rightarrow> error + token option" where
  "or_else m k = (case m of Inr None \<Rightarrow> k | _ \<Rightarrow> m)"

definition Board_winner :: "Board \<Rightarrow> error + token option" where
  "Board_winner b =
     or_else (check_lines (rows b))
    (or_else (and_then (columns b) check_lines)
    (or_else (and_then (main_diagonal b) (\<lambda>d. check_lines [d]))
             (and_then (anti_diagonal b) (\<lambda>d. check_lines [d]))))"

definition full :: "Board \<Rightarrow> bool" where
  "full b = (empty_cells b = [])"

text \<open>
  \<^verbatim>\<open>BoardIterator\<close>: \<open>board_iter g r c\<close> is what the iterator still yields when its
  \<^verbatim>\<open>next_row_id\<close> and \<^verbatim>\<open>next_col_id\<close> are \<open>r\<close> and \<open>c\<close>, each cell with the
  \<^verbatim>\<open>(row_id, col_id)\<close> that the iterator shows while the cell is being handled. The
  \<^verbatim>\<open>IndexError\<close> of the read ends the iteration.
\<close>

function board_iter :: "token list list \<Rightarrow> nat \<Rightarrow> nat \<Rightarrow> (position \<times> token) list" where
  "board_iter g r c =
     (if r < length g \<and> c < length (g ! r)
      then ((int r, int c), g ! r ! c) #
           (if c < length (g ! 0) - 1 then board_iter g r (c + 1)
            else board_iter g (r + 1) 0)
      else [])"
  by pat_completeness auto
termination
  by (relation "measures [\<lambda>(g, r, c). length g - r, \<lambda>(g, r, c). length (g ! 0) - c]") auto

text \<open>\<^verbatim>\<open>Board.copy\<close> builds a new board through the constructor and overwrites its grid,
  histories and free cells with copies of the original's.\<close>

definition Board_copy :: "Board \<Rightarrow> error + Board" where
  "Board_copy b =
     and_then (Board_init (num_rows b) (num_cols b)) (\<lambda>new_board.
       Inr (new_board \<lparr> board := map (\<lambda>row. row) (rows b),
                        played_positions := played_positions b,
                        played_tokens := played_tokens b,
                        empty_cells := empty_cells b \<rparr>))"

text \<open>\<^verbatim>\<open>Board.__eq__\<close> compares the grids and nothing else.\<close>

definition Board_eq :: "Board \<Rightarrow> Board \<Rightarrow> bool" where
  "Board_eq b other = (board b = board other)"

text \<open>\<^verbatim>\<open>Board.recitfy_game_history\<close> (the name is the source's): the three lists are
  emptied and refilled by one pass of the iterator over the grid.\<close>

fun rectify_cells :: "(position \<times> token) list \<Rightarrow> Board \<Rightarrow> Board" where
  "rectify_cells [] b = b"
| "rectify_cells ((position, cell) # rest) b =
     rectify_cells rest
       (if cell = empty
        then b \<lparr> empty_cells := empty_cells b @ [position] \<rparr>
        else b \<lparr> played_tokens := played_tokens b @ [cell],
                 played_positions := played_positions b @ [position] \<rparr>)"

definition recitfy_game_history :: "Board \<Rightarrow> Board" where
  "recitfy_game_history b =
     rectify_cells (board_iter (board b) 0 0)
       (b \<lparr> empty_cells := [], played_positions := [], played_tokens := [] \<rparr>)"

text \<open>
  \<^verbatim>\<open>Board.rotate\<close>. After the assertion \<open>degrees\<close> is 90, 180 or 270, so the source's last
  \<^verbatim>\<open>else: return None\<close> cannot be reached and the third branch stands for 270.
\<close>

definition Board_rotate :: "Board \<Rightarrow> int \<Rightarrow> error + Board" where
  "Board_rotate b degrees =
     (if degrees \<notin> {90, 180, 270}
      then Inl (AssertionError ''degrees must be 90, 180 or 270'')
      else
        and_then (Board_init (num_rows b) (num_cols b)) (\<lambda>new_board.
        and_then
          (if degrees = 90 then and_then (columns b) (\<lambda>cs. Inr (map rev cs))
           else if degrees = 180 then Inr (map rev (rev (rows b)))
           else and_then (columns b) (\<lambda>cs. Inr (map (\<lambda>column. column) (rev cs))))
          (\<lambda>g. Inr (recitfy_game_history (new_board \<lparr> board := g \<rparr>)))))"

text \<open>\<^verbatim>\<open>Board.reflect\<close>; again the last \<^verbatim>\<open>else\<close> of the source is cut off by the
  assertion.\<close>

definition Board_reflect :: "Board \<Rightarrow> string \<Rightarrow> error + Board" where
  "Board_reflect b axis0 =
     (let axis = lower axis0 in
      if axis \<notin> {''horizontal'', ''h'', ''vertical'', ''v'', ''main diagonal'', ''md'',
                  ''anti-diagonal'', ''ad''}
      then Inl (AssertionError [])
      else
        and_then (Board_copy b) (\<lambda>new_board.
        and_then
          (if axis \<in> {''horizontal'', ''h''} then Inr (map (\<lambda>row. row) (rev (rows b)))
           else if axis \<in> {''vertical'', ''v''} then Inr (map rev (rows b))
           else if axis \<in> {''main diagonal'', ''md''}
                then and_then (columns b) (\<lambda>cs. Inr (map rev (rev cs)))
           else and_then (columns b) (\<lambda>cs. Inr (map (\<lambda>column. column) cs)))
          (\<lambda>g. Inr (recitfy_game_history (new_board \<lparr> board := g \<rparr>)))))"

text \<open>
  \<^verbatim>\<open>Board.isomorphisms\<close>. \<^verbatim>\<open>board != self\<close> is the negation of \<^verbatim>\<open>__eq__\<close>, and
  \<^verbatim>\<open>board not in rotations\<close> compares \<^verbatim>\<open>board\<close> with each element by \<^verbatim>\<open>__eq__\<close>.
\<close>

definition isomorphisms :: "Board \<Rightarrow> error + Board list" where
  "isomorphisms b =
     and_then (map_result (Board_rotate b) [90, 180, 270]) (\<lambda>rotations0.
     and_then (map_result (Board_reflect b) [''h'', ''v'', ''md'', ''ad'']) (\<lambda>reflections0.
       (let rotations = b # filter (\<lambda>x. \<not> Board_eq x b) rotations0;
            reflections = filter (\<lambda>x. \<not> list_ex (\<lambda>y. Board_eq y x) rotations) reflections0
        in Inr (rotations @ reflections))))"

definition isomorphic_to :: "Board \<Rightarrow> Board \<Rightarrow> error + bool" where
  "isomorphic_to b other =
     and_then (isomorphisms other) (\<lambda>isos. Inr (list_ex (\<lambda>y. Board_eq y b) isos))"


declare board_iter.simps [simp del]

subsection \<open>Well-formed boards and the cells of a grid\<close>

text \<open>
  The constructor asserts that a board is square, and no method changes the shape of a
  grid: every board built through the class has \<open>num_rows = num_cols\<close> and a grid of
  \<open>num_rows\<close> rows of that length. \<open>grid_columns\<close>, \<open>grid_cells\<close> and \<open>rectified\<close>
  are what \<^verbatim>\<open>columns\<close>, the iterator and \<^verbatim>\<open>recitfy_game_history\<close> compute on such a
  grid; they are used to state and prove facts, the definitions above are the code.
\<close>

definition square_grid :: "nat \<Rightarrow> 'a list list \<Rightarrow> bool" where
  "square_grid n g = (length g = n \<and> list_all (\<lambda>row. length row = n) g)"

definition well_formed :: "Board \<Rightarrow> bool" where
  "well_formed b = (num_cols b = num_rows b \<and> square_grid (num_rows b) (board b))"

definition grid_columns :: "nat \<Rightarrow> 'a list list \<Rightarrow> 'a list list" where
  "grid_columns n g = map (\<lambda>col. map (\<lambda>row. g ! row ! col) [0..<n]) [0..<n]"

definition row_cells :: "token list list \<Rightarrow> nat \<Rightarrow> nat \<Rightarrow> nat \<Rightarrow> (position \<times> token) list" where
  "row_cells g n r c = map (\<lambda>c'. ((int r, int c'), g ! r ! c')) [c..<n]"

definition grid_cells :: "token list list \<Rightarrow> nat \<Rightarrow> nat \<Rightarrow> (position \<times> token) list" where
  "grid_cells g n r = concat (map (\<lambda>r'. row_cells g n r' 0) [r..<n])"

definition rectified :: "nat \<Rightarrow> token list list \<Rightarrow> Board" where
  "rectified n g =
     \<lparr> num_rows = n, num_cols = n, num_cells = n * n, board = g,
       played_positions = map fst (filter (\<lambda>(p, cell). cell \<noteq> empty) (grid_cells g n 0)),
       played_tokens = map snd (filter (\<lambda>(p, cell). cell \<noteq> empty) (grid_cells g n 0)),
       empty_cells = map fst (filter (\<lambda>(p, cell). cell = empty) (grid_cells g n 0)) \<rparr>"

definition all_cells :: "Board \<Rightarrow> position list" where
  "all_cells b =
     concat (map (\<lambda>r. map (\<lambda>c. (int r, int c)) [0..<num_cols b]) [0..<num_rows b])"

text \<open>The invariant of the data model: the two position lists share no coordinate,
  together they are the whole coordinate space, their lengths add up to the number of
  cells, and a cell is empty exactly when its coordinate is listed as empty.\<close>

definition board_invariant :: "Board \<Rightarrow> bool" where
  "board_invariant b =
     (set (played_positions b) \<inter> set (empty_cells b) = {} \<and>
      set (played_positions b) \<union> set (empty_cells b) = set (all_cells b) \<and>
      length (played_positions b) + length (empty_cells b) = num_rows b * num_cols b \<and>
      list_all (\<lambda>(r, c). (board b ! nat r ! nat c = empty) = ((r, c) \<in> set (empty_cells b)))
        (all_cells b))"

text \<open>A caller that plays a list of moves one after the other and stops at the first
  call that raises.\<close>

fun play_moves :: "Board \<Rightarrow> (position \<times> token) list \<Rightarrow> error option \<times> Board" where
  "play_moves b [] = (None, b)"
| "play_moves b (((row, col), token) # moves) =
     (case Board_play b row col token of
        (None, b') \<Rightarrow> play_moves b' moves
      | (Some e, b') \<Rightarrow> (Some e, b'))"

text \<open>The 2 by 2 board after \<^verbatim>\<open>play(0, 0, 'O')\<close>, used to run the theorems below on a
  concrete input.\<close>

definition board_2x2_O :: Board where
  "board_2x2_O =
     \<lparr> num_rows = 2, num_cols = 2, num_cells = 4,
       board = [[''O'', '' ''], ['' '', '' '']],
       played_positions = [(0, 0)], played_tokens = [''O''],
       empty_cells = [(0, 1), (1, 0), (1, 1)] \<rparr>"

text \<open>The seven grids that \<^verbatim>\<open>isomorphisms\<close> computes from a square grid, in the order
  of the source: the three rotations, then the reflections \<^verbatim>\<open>h\<close>, \<^verbatim>\<open>v\<close>, \<^verbatim>\<open>md\<close>,
  \<^verbatim>\<open>ad\<close>.\<close>

definition transforms :: "nat \<Rightarrow> 'a list list \<Rightarrow> 'a list list list" where
  "transforms n g =
     [map rev (grid_columns n g), map rev (rev g), rev (grid_columns n g),
      rev g, map rev g, map rev (rev (grid_columns n g)), grid_columns n g]"

text \<open>The 3 by 3 board after \<^verbatim>\<open>play(0, 0, 'O')\<close>, \<^verbatim>\<open>play(1, 1, 'X')\<close>,
  \<^verbatim>\<open>play(2, 2, 'O')\<close>.\<close>

definition board_3x3_OXO :: Board where
  "board_3x3_OXO =
     \<lparr> num_rows = 3, num_cols = 3, num_cells = 9,
       board = [[''O'', '' '', '' ''], ['' '', ''X'', '' ''], ['' '', '' '', ''O'']],
       played_positions = [(0, 0), (1, 1), (2, 2)], played_tokens = [''O'', ''X'', ''O''],
       empty_cells = [(0, 1), (0, 2), (1, 0), (1, 2), (2, 0), (2, 1)] \<rparr>"

text \<open>\<^verbatim>\<open>Board(0, 0)\<close>: the assertion of the constructor lets it through.\<close>

definition board_0x0 :: Board where
  "board_0x0 =
     \<lparr> num_rows = 0, num_cols = 0, num_cells = 0, board = [],
       played_positions = [], played_tokens = [], empty_cells = [] \<rparr>"

subsection \<open>The winner, in the words of the specification\<close>

text \<open>
  A line wins when it is not of length 0, all its cells are equal and they are not the
  empty marker. The lines are looked at in the order rows (top to bottom), columns (left
  to right), main diagonal, anti-diagonal, and the token of the first winning line is the
  result.
\<close>

definition winning_line :: "token list \<Rightarrow> bool" where
  "winning_line line = (line \<noteq> [] \<and> list_all (\<lambda>cell. cell = hd line) line \<and> hd line \<noteq> empty)"

definition lines_in_order :: "Board \<Rightarrow> token list list" where
  "lines_in_order b =
     board b @ grid_columns (num_rows b) (board b) @
     [map (\<lambda>i. board b ! i ! i) [0..<num_rows b],
      map (\<lambda>i. board b ! i ! (num_rows b - i - 1)) [0..<num_rows b]]"

definition first_winning_token :: "Board \<Rightarrow> token option" where
  "first_winning_token b = map_option hd (find winning_line (lines_in_order b))"

subsection \<open>The invariant used in the proofs\<close>

text \<open>\<open>board_invariant\<close> together with the shape of the grid and the absence of repeated
  positions, which is what \<^verbatim>\<open>play\<close> preserves step by step.\<close>

definition strong_invariant :: "Board \<Rightarrow> bool" where
  "strong_invariant b =
     (well_formed b \<and> distinct (played_positions b) \<and> distinct (empty_cells b) \<and>
      set (played_positions b) \<inter> set (empty_cells b) = {} \<and>
      set (played_positions b) \<union> set (empty_cells b) = set (all_cells b) \<and>
      (\<forall>r < num_rows b. \<forall>c < num_rows b.
         (board b ! r ! c = empty) = ((int r, int c) \<in> set (empty_cells b))))"


section \<open>The board as objects in a store\<close>

text \<open>
  The model above takes a board for the contents of its grid. Whether two boards share
  list objects cannot be said there, so for the claim about independent copies the same
  methods are written once more with the rows of a grid held in a store: a row is a
  reference, \<^verbatim>\<open>self.board\<close> is a list of references, and an assignment
  \<^verbatim>\<open>self.board[row][col] = token\<close> changes the row object that the reference names, for
  every board that holds the reference. The outer list of a grid and the three history
  lists are never shared: every method that hands them to a new board builds a new list
  (\<^verbatim>\<open>.copy()\<close>, a comprehension, or the fresh lists of \<^verbatim>\<open>recitfy_game_history\<close>), so
  they stay values. What a method only reads is computed by the definitions above on
  the contents found in the store (\<open>view\<close>).
\<close>

type_synonym ref = nat

record store =
  row_at :: "ref \<Rightarrow> token list"
  next_ref :: ref

record Board_obj =
  obj_num_rows :: nat
  obj_num_cols :: nat
  obj_num_cells :: nat
  obj_board :: "ref list"
  obj_played_positions :: "position list"
  obj_played_tokens :: "token list"
  obj_empty_cells :: "position list"

definition empty_store :: store where
  "empty_store = \<lparr> row_at = (\<lambda>_. []), next_ref = 0 \<rparr>"

text \<open>Creating one new list object, and one per element of a list of contents.\<close>

definition new_row :: "store \<Rightarrow> token list \<Rightarrow> ref \<times> store" where
  "new_row s row =
     (next_ref s, s \<lparr> row_at := (row_at s)(next_ref s := row), next_ref := Suc (next_ref s) \<rparr>)"

fun new_rows :: "store \<Rightarrow> token list list \<Rightarrow> ref list \<times> store" where
  "new_rows s [] = ([], s)"
| "new_rows s (row # rest) =
     (case new_row s row of (r, s1) \<Rightarrow>
        (case new_rows s1 rest of (rs, s2) \<Rightarrow> (r # rs, s2)))"

definition view :: "store \<Rightarrow> Board_obj \<Rightarrow> Board" where
  "view s b =
     \<lparr> num_rows = obj_num_rows b, num_cols = obj_num_cols b, num_cells = obj_num_cells b,
       board = map (row_at s) (obj_board b),
       played_positions = obj_played_positions b, played_tokens = obj_played_tokens b,
       empty_cells = obj_empty_cells b \<rparr>"

definition obj_Board_init :: "store \<Rightarrow> nat \<Rightarrow> nat \<Rightarrow> error + (Board_obj \<times> store)" where
  "obj_Board_init s nr nc =
     (if nr \<noteq> nc
      then Inl (AssertionError ''Boards must be square (i.e. num rows = num columns)'')
      else case new_rows s (replicate nr (replicate nc empty)) of (rs, s1) \<Rightarrow>
        Inr (\<lparr> obj_num_rows = nr, obj_num_cols = nc, obj_num_cells = nr * nc,
               obj_board = rs, obj_played_positions = [], obj_played_tokens = [],
               obj_empty_cells =
                 concat (map (\<lambda>i. map (\<lambda>j. (int i, int j)) [0..<nr]) [0..<nc]) \<rparr>, s1))"

text \<open>\<^verbatim>\<open>play\<close>: the write goes to the row object.\<close>

definition obj_play ::
  "store \<Rightarrow> Board_obj \<Rightarrow> int \<Rightarrow> int \<Rightarrow> token \<Rightarrow> error option \<times> Board_obj \<times> store" where
  "obj_play s b row col token =
     (if (row, col) \<in> set (obj_played_positions b)
      then (Some (IndexError (already_played_message row col)), b, s)
      else
        case list_index (length (obj_board b)) row of
          None \<Rightarrow> (Some (IndexError ''list index out of range''), b, s)
        | Some r \<Rightarrow>
            (case list_index (length (row_at s (obj_board b ! r))) col of
               None \<Rightarrow> (Some (IndexError ''list assignment index out of range''), b, s)
             | Some c \<Rightarrow>
                 (let s1 = s \<lparr> row_at := (row_at s)
                                (obj_board b ! r := (row_at s (obj_board b ! r))[c := token]) \<rparr>;
                      b1 = b \<lparr> obj_played_positions := obj_played_positions b @ [(row, col)],
                               obj_played_tokens := obj_played_tokens b @ [token] \<rparr>
                  in if (row, col) \<in> set (obj_empty_cells b)
                     then (None,
                           b1 \<lparr> obj_empty_cells := remove1 (row, col) (obj_empty_cells b) \<rparr>, s1)
                     else (Some (ValueError ''list.remove(x): x not in list''), b1, s1))))"

text \<open>\<^verbatim>\<open>copy\<close>: a new board from the constructor, then \<^verbatim>\<open>[row.copy() for row in self.rows]\<close>
  makes one new row object per row.\<close>

definition obj_copy :: "store \<Rightarrow> Board_obj \<Rightarrow> error + (Board_obj \<times> store)" where
  "obj_copy s b =
     and_then (obj_Board_init s (obj_num_rows b) (obj_num_cols b)) (\<lambda>(new_board, s1).
       case new_rows s1 (map (row_at s1) (obj_board b)) of (rs, s2) \<Rightarrow>
         Inr (new_board \<lparr> obj_board := rs,
                          obj_played_positions := obj_played_positions b,
                          obj_played_tokens := obj_played_tokens b,
                          obj_empty_cells := obj_empty_cells b \<rparr>, s2))"

definition obj_recitfy_game_history :: "store \<Rightarrow> Board_obj \<Rightarrow> Board_obj" where
  "obj_recitfy_game_history s b =
     (let h = recitfy_game_history (view s b)
      in b \<lparr> obj_empty_cells := empty_cells h, obj_played_positions := played_positions h,
             obj_played_tokens := played_tokens h \<rparr>)"

text \<open>\<^verbatim>\<open>rotate\<close>: in each branch the comprehension runs over \<^verbatim>\<open>self.columns\<close>, which builds
  its lists anew, or reverses each row into a new list; all rows of the result are new
  objects.\<close>

definition obj_rotate :: "store \<Rightarrow> Board_obj \<Rightarrow> int \<Rightarrow> error + (Board_obj \<times> store)" where
  "obj_rotate s b degrees =
     (if degrees \<notin> {90, 180, 270}
      then Inl (AssertionError ''degrees must be 90, 180 or 270'')
      else
        and_then (obj_Board_init s (obj_num_rows b) (obj_num_cols b)) (\<lambda>(new_board, s1).
        and_then
          (if degrees = 90 then and_then (columns (view s1 b)) (\<lambda>cs. Inr (map rev cs))
           else if degrees = 180 then Inr (map rev (rev (rows (view s1 b))))
           else and_then (columns (view s1 b)) (\<lambda>cs. Inr (rev cs)))
          (\<lambda>g. case new_rows s1 g of (rs, s2) \<Rightarrow>
             Inr (obj_recitfy_game_history s2 (new_board \<lparr> obj_board := rs \<rparr>), s2))))"

text \<open>
  \<^verbatim>\<open>reflect\<close>. The vertical branch reverses each row into a new list and the two diagonal
  branches run over \<^verbatim>\<open>self.columns\<close>; the horizontal branch,
  \<^verbatim>\<open>[row for row in self.rows[::-1]]\<close>, builds a new outer list that holds the row
  objects of \<^verbatim>\<open>self\<close> themselves.
\<close>

definition obj_reflect :: "store \<Rightarrow> Board_obj \<Rightarrow> string \<Rightarrow> error + (Board_obj \<times> store)" where
  "obj_reflect s b axis0 =
     (let axis = lower axis0 in
      if axis \<notin> {''horizontal'', ''h'', ''vertical'', ''v'', ''main diagonal'', ''md'',
                  ''anti-diagonal'', ''ad''}
      then Inl (AssertionError [])
      else
        and_then (obj_copy s b) (\<lambda>(new_board, s1).
          if axis \<in> {''horizontal'', ''h''}
          then Inr (obj_recitfy_game_history s1 (new_board \<lparr> obj_board := rev (obj_board b) \<rparr>), s1)
          else
            and_then
              (if axis \<in> {''vertical'', ''v''} then Inr (map rev (rows (view s1 b)))
               else if axis \<in> {''main diagonal'', ''md''}
                    then and_then (columns (view s1 b)) (\<lambda>cs. Inr (map rev (rev cs)))
               else and_then (columns (view s1 b)) (\<lambda>cs. Inr cs))
              (\<lambda>g. case new_rows s1 g of (rs, s2) \<Rightarrow>
                 Inr (obj_recitfy_game_history s2 (new_board \<lparr> obj_board := rs \<rparr>), s2))))"

text \<open>The caller \<^verbatim>\<open>b = Board(2, 2); r = b.reflect(axis); r.play(0, 0, 'X')\<close>: the contents
  of \<^verbatim>\<open>b\<close> before the call of \<^verbatim>\<open>play\<close>, of \<^verbatim>\<open>b\<close> after it, and of \<^verbatim>\<open>r\<close> after it.\<close>

definition play_on_reflection :: "string \<Rightarrow> error + (Board \<times> Board \<times> Board)" where
  "play_on_reflection axis =
     and_then (obj_Board_init empty_store 2 2) (\<lambda>(b, s1).
     and_then (obj_reflect s1 b axis) (\<lambda>(r, s2).
       case obj_play s2 r 0 0 ''X'' of (e, r', s3) \<Rightarrow> Inr (view s2 b, view s3 b, view s3 r')))"

text \<open>The same caller, asked whether the invariant of the data model holds of \<^verbatim>\<open>b\<close>
  before the call of \<^verbatim>\<open>play\<close>, of \<^verbatim>\<open>b\<close> after it, and of \<^verbatim>\<open>r\<close> after it.\<close>

definition invariant_after_play_on_reflection :: "string \<Rightarrow> error + (bool \<times> bool \<times> bool)" where
  "invariant_after_play_on_reflection axis =
     and_then (play_on_reflection axis) (\<lambda>(b_before, b_after, r_after).
       Inr (board_invariant b_before, board_invariant b_after, board_invariant r_after))"


section \<open>The permutation search (full\_tree\_search.py)\<close>

text \<open>
  \<^verbatim>\<open>itertools.permutations(xs)\<close> yields the orderings of \<open>xs\<close> in lexicographic order of
  the places of the elements: first all that start with \<open>xs[0]\<close>, and so on. \<open>perms_of n\<close>
  does this for a list of length \<open>n\<close>.
\<close>

primrec perms_of :: "nat \<Rightarrow> 'a list \<Rightarrow> 'a list list" where
  "perms_of 0 xs = [[]]"
| "perms_of (Suc n) xs =
     concat (map (\<lambda>i. map ((#) (xs ! i)) (perms_of n (take i xs @ drop (Suc i) xs)))
                 [0..<length xs])"

definition permutations :: "'a list \<Rightarrow> 'a list list" where
  "permutations xs = perms_of (length xs) xs"

text \<open>
  The inner loop of the set-up, \<^verbatim>\<open>for move in perm\<close>: it plays the moves of one
  permutation on a copy of the board, the tokens taking turns, and stops at the first
  winner; without one the \<^verbatim>\<open>else\<close> of the loop records \<^verbatim>\<open>'Draw'\<close>. The outcome is a
  string, a token or \<^verbatim>\<open>'Draw'\<close>. (\<^verbatim>\<open>% num_players\<close> cannot divide by zero: with no
  tokens, \<^verbatim>\<open>tokens[player_id]\<close> has raised before.)
\<close>

fun replay :: "Board \<Rightarrow> token list \<Rightarrow> nat \<Rightarrow> position list \<Rightarrow> error + string" where
  "replay board_copy tokens player_id [] = Inr ''Draw''"
| "replay board_copy tokens player_id (move # rest) =
     and_then (getitem tokens (int player_id)) (\<lambda>token.
       case Board_play board_copy (fst move) (snd move) token of
         (Some e, _) \<Rightarrow> Inl e
       | (None, b1) \<Rightarrow>
           and_then (Board_winner b1) (\<lambda>w.
             case w of
               Some t \<Rightarrow> Inr t
             | None \<Rightarrow> replay b1 tokens ((player_id + 1) mod length tokens) rest))"

text \<open>
  A Python \<^verbatim>\<open>dict\<close> keeps its keys in the order of their first insertion; assigning to a key
  that is there replaces the value in place. That is an association list under
  \<open>AList.update\<close>. \<open>build_winners\<close> is the loop \<^verbatim>\<open>for perm in tqdm(move_permuations)\<close>.
\<close>

fun build_winners ::
  "Board \<Rightarrow> token list \<Rightarrow> position list list \<Rightarrow> (position list \<times> string) list
     \<Rightarrow> error + (position list \<times> string) list" where
  "build_winners board0 tokens [] winners = Inr winners"
| "build_winners board0 tokens (perm # rest) winners =
     and_then (Board_copy board0) (\<lambda>board_copy.
     and_then (replay board_copy tokens 0 perm) (\<lambda>outcome.
       build_winners board0 tokens rest (AList.update perm outcome winners)))"

text \<open>What the closure \<^verbatim>\<open>get_move\<close> keeps of the set-up (the names are the source's).\<close>

record search =
  move_permuations :: "position list list"
  winners :: "(position list \<times> string) list"

definition full_tree_search :: "Board \<Rightarrow> token list \<Rightarrow> error + search" where
  "full_tree_search board0 tokens =
     (let moveset = empty_cells board0;
          perms = permutations moveset
      in and_then (build_winners board0 tokens perms []) (\<lambda>ws.
           Inr \<lparr> move_permuations = perms, winners = ws \<rparr>))"

text \<open>The dict comprehension \<^verbatim>\<open>{perm: winners[perm] for perm in perm_subset}\<close>.\<close>

fun subset_dict ::
  "(position list \<times> string) list \<Rightarrow> position list list \<Rightarrow> (position list \<times> string) list
     \<Rightarrow> error + (position list \<times> string) list" where
  "subset_dict ws [] acc = Inr acc"
| "subset_dict ws (perm # rest) acc =
     (case map_of ws perm of
        None \<Rightarrow> Inl KeyError
      | Some w \<Rightarrow> subset_dict ws rest (AList.update perm w acc))"

definition WIN :: int where "WIN = 100"
definition LOSS :: int where "LOSS = - 100"
definition DRAW :: int where "DRAW = 0"

definition outcome_value :: "token \<Rightarrow> string \<Rightarrow> int" where
  "outcome_value token winner =
     (if winner = token then WIN else if winner = ''Draw'' then DRAW else LOSS)"

text \<open>The loop that fills the \<^verbatim>\<open>defaultdict(list)\<close> \<^verbatim>\<open>next_moves\<close>.\<close>

fun collect_next_moves ::
  "token \<Rightarrow> nat \<Rightarrow> (position list \<times> string) list \<Rightarrow> (position \<times> int list) list
     \<Rightarrow> error + (position \<times> int list) list" where
  "collect_next_moves token num_moves [] next_moves = Inr next_moves"
| "collect_next_moves token num_moves ((perm, winner) # rest) next_moves =
     and_then (getitem perm (int num_moves)) (\<lambda>move.
       collect_next_moves token num_moves rest
         (AList.update move
            ((case map_of next_moves move of None \<Rightarrow> [] | Some vs \<Rightarrow> vs)
               @ [outcome_value token winner])
            next_moves))"

text \<open>
  \<^verbatim>\<open>statistics.mean\<close> computes the exact quotient of the sum by the count (and turns it
  into an \<^verbatim>\<open>int\<close> or a \<^verbatim>\<open>float\<close> at the end); the model keeps the exact rational. On no
  data it raises \<^verbatim>\<open>StatisticsError\<close>, a subclass of \<^verbatim>\<open>ValueError\<close>.
\<close>

definition mean :: "int list \<Rightarrow> error + rat" where
  "mean vs =
     (if vs = [] then Inl (ValueError ''mean requires at least one data point'')
      else Inr (of_int (sum_list vs) / of_nat (length vs)))"

text \<open>
  \<^verbatim>\<open>random.sample(best_moves, 1)[0]\<close> raises on an empty population and otherwise returns
  the element at a place that the generator draws; the draw is the parameter \<open>rnd\<close>,
  taken modulo the length.
\<close>

definition sample1 :: "nat \<Rightarrow> 'a list \<Rightarrow> error + 'a" where
  "sample1 rnd xs =
     (if xs = [] then Inl (ValueError ''Sample larger than population or is negative'')
      else Inr (xs ! (rnd mod length xs)))"

definition get_move :: "search \<Rightarrow> nat \<Rightarrow> Board \<Rightarrow> token \<Rightarrow> error + position option" where
  "get_move st rnd b token =
     (if empty_cells b = [] then Inr None
      else if length (empty_cells b) = 1 then Inr (Some (empty_cells b ! 0))
      else
        and_then
          (if played_positions b = [] then Inr (0, winners st)
           else
             (let num_moves = length (played_positions b);
                  perm_subset = filter (\<lambda>perm. take num_moves perm = played_positions b)
                                  (move_permuations st)
              in and_then (subset_dict (winners st) perm_subset [])
                   (\<lambda>winners_subset. Inr (num_moves, winners_subset))))
          (\<lambda>(num_moves, winners_subset).
        and_then (collect_next_moves token num_moves winners_subset []) (\<lambda>next_moves.
        and_then (map_result (\<lambda>(move, value). and_then (mean value) (\<lambda>m. Inr (move, m)))
                    next_moves) (\<lambda>agg_scores.
          (let best_moves =
                 map fst (filter (\<lambda>(move, value). value = Max (set (map snd agg_scores)))
                            agg_scores)
           in and_then (sample1 rnd best_moves) (\<lambda>move. Inr (Some move)))))))"

subsection \<open>The move selection, in the words of the specification\<close>

text \<open>
  The outcome table restricted to the permutations that start with the moves played on
  the board; a candidate next move is the entry right after that prefix in a surviving
  permutation; its score is the arithmetic mean, over the surviving permutations that
  continue with it, of +100 for an outcome equal to the token, 0 for a draw and -100
  otherwise.
\<close>

definition surviving :: "search \<Rightarrow> Board \<Rightarrow> (position list \<times> string) list" where
  "surviving st b =
     filter (\<lambda>(perm, w). take (length (played_positions b)) perm = played_positions b)
       (winners st)"

definition candidate_moves :: "search \<Rightarrow> Board \<Rightarrow> position list" where
  "candidate_moves st b =
     map (\<lambda>(perm, w). perm ! length (played_positions b))
       (filter (\<lambda>(perm, w). length (played_positions b) < length perm) (surviving st b))"

definition mean_score :: "search \<Rightarrow> Board \<Rightarrow> token \<Rightarrow> position \<Rightarrow> rat" where
  "mean_score st b token move =
     (let values = map (\<lambda>(perm, w). if w = token then 100 else if w = ''Draw'' then 0 else - 100)
                     (filter (\<lambda>(perm, w). perm ! length (played_positions b) = move)
                        (surviving st b))
      in of_int (sum_list values) / of_nat (length values))"

text \<open>The search that is set up on the 2 by 2 board on which \<^verbatim>\<open>O\<close> has played \<open>(0, 0)\<close>,
  for the tokens \<^verbatim>\<open>['X', 'O']\<close>.\<close>

definition search_2x2_O :: search where
  "search_2x2_O =
     \<lparr> move_permuations =
         [[(0, 1), (1, 0), (1, 1)], [(0, 1), (1, 1), (1, 0)],
          [(1, 0), (0, 1), (1, 1)], [(1, 0), (1, 1), (0, 1)],
          [(1, 1), (0, 1), (1, 0)], [(1, 1), (1, 0), (0, 1)]],
       winners =
         [([(0, 1), (1, 0), (1, 1)], ''O''), ([(0, 1), (1, 1), (1, 0)], ''O''),
          ([(1, 0), (0, 1), (1, 1)], ''O''), ([(1, 0), (1, 1), (0, 1)], ''O''),
          ([(1, 1), (0, 1), (1, 0)], ''O''), ([(1, 1), (1, 0), (0, 1)], ''O'')] \<rparr>"

text \<open>The search that is set up on the fresh 2 by 2 board for the tokens \<^verbatim>\<open>['O', 'X']\<close>:
  whoever moves first has two cells after the third move, and any two cells of a 2 by 2
  board are a line.\<close>

definition search_2x2_fresh :: search where
  "search_2x2_fresh =
     \<lparr> move_permuations =
         [[(0, 0), (0, 1), (1, 0), (1, 1)], [(0, 0), (0, 1), (1, 1), (1, 0)],
          [(0, 0), (1, 0), (0, 1), (1, 1)], [(0, 0), (1, 0), (1, 1), (0, 1)],
          [(0, 0), (1, 1), (0, 1), (1, 0)], [(0, 0), (1, 1), (1, 0), (0, 1)],
          [(0, 1), (0, 0), (1, 0), (1, 1)], [(0, 1), (0, 0), (1, 1), (1, 0)],
          [(0, 1), (1, 0), (0, 0), (1, 1)], [(0, 1), (1, 0), (1, 1), (0, 0)],
          [(0, 1), (1, 1), (0, 0), (1, 0)], [(0, 1), (1, 1), (1, 0), (0, 0)],
          [(1, 0), (0, 0), (0, 1), (1, 1)], [(1, 0), (0, 0), (1, 1), (0, 1)],
          [(1, 0), (0, 1), (0, 0), (1, 1)], [(1, 0), (0, 1), (1, 1), (0, 0)],
          [(1, 0), (1, 1), (0, 0), (0, 1)], [(1, 0), (1, 1), (0, 1), (0, 0)],
          [(1, 1), (0, 0), (0, 1), (1, 0)], [(1, 1), (0, 0), (1, 0), (0, 1)],
          [(1, 1), (0, 1), (0, 0), (1, 0)], [(1, 1), (0, 1), (1, 0), (0, 0)],
          [(1, 1), (1, 0), (0, 0), (0, 1)], [(1, 1), (1, 0), (0, 1), (0, 0)]],
       winners =
         map (\<lambda>perm. (perm, ''O''))
         [[(0, 0), (0, 1), (1, 0), (1, 1)], [(0, 0), (0, 1), (1, 1), (1, 0)],
          [(0, 0), (1, 0), (0, 1), (1, 1)], [(0, 0), (1, 0), (1, 1), (0, 1)],
          [(0, 0), (1, 1), (0, 1), (1, 0)], [(0, 0), (1, 1), (1, 0), (0, 1)],
          [(0, 1), (0, 0), (1, 0), (1, 1)], [(0, 1), (0, 0), (1, 1), (1, 0)],
          [(0, 1), (1, 0), (0, 0), (1, 1)], [(0, 1), (1, 0), (1, 1), (0, 0)],
          [(0, 1), (1, 1), (0, 0), (1, 0)], [(0, 1), (1, 1), (1, 0), (0, 0)],
          [(1, 0), (0, 0), (0, 1), (1, 1)], [(1, 0), (0, 0), (1, 1), (0, 1)],
          [(1, 0), (0, 1), (0, 0), (1, 1)], [(1, 0), (0, 1), (1, 1), (0, 0)],
          [(1, 0), (1, 1), (0, 0), (0, 1)], [(1, 0), (1, 1), (0, 1), (0, 0)],
          [(1, 1), (0, 0), (0, 1), (1, 0)], [(1, 1), (0, 0), (1, 0), (0, 1)],
          [(1, 1), (0, 1), (0, 0), (1, 0)], [(1, 1), (0, 1), (1, 0), (0, 0)],
          [(1, 1), (1, 0), (0, 0), (0, 1)], [(1, 1), (1, 0), (0, 1), (0, 0)]] \<rparr>"


section \<open>The pruned game tree (game\_tree.py)\<close>

text \<open>
  A node keeps its own copy of the board, the tokens in the order of play from its own
  turn on, the move that led to it, its parent, and what \<^verbatim>\<open>__init__\<close> computes from
  these: the token played, the winner (a token, \<^verbatim>\<open>'Draw'\<close> or \<^verbatim>\<open>None\<close>), whether the board
  is full, and the moves that can follow. The board of a node is not changed after the
  node is built.
\<close>

datatype Node =
  Node (node_board: Board) (node_tokens: "token list") (node_move: "position option")
       (node_parent: "Node option") (token_played: "token option")
       (node_winner: "string option") (board_full: bool)
       (next_moves: "position list option")

text \<open>\<^verbatim>\<open>Node.__init__\<close>. \<^verbatim>\<open>self.tokens[0]\<close> raises on an empty token list; the move is
  played with that token on the copy of the board.\<close>

definition Node_init ::
  "Board \<Rightarrow> token list \<Rightarrow> position option \<Rightarrow> Node option \<Rightarrow> error + Node" where
  "Node_init board0 tokens move parent =
     and_then (Board_copy board0) (\<lambda>b.
     and_then
       (if parent = None \<and> move = None then Inr (None, b)
        else and_then (getitem tokens 0) (\<lambda>t.
               case move of
                 None \<Rightarrow> Inr (Some t, b)
               | Some mv \<Rightarrow>
                   (case Board_play b (fst mv) (snd mv) t of
                      (Some e, _) \<Rightarrow> Inl e
                    | (None, b1) \<Rightarrow> Inr (Some t, b1))))
       (\<lambda>(played, b1).
     and_then (Board_winner b1) (\<lambda>w.
       (let is_full = full b1;
            winner = (if w = None \<and> is_full then Some ''Draw'' else w);
            following = (if winner = None then Some (empty_cells b1) else None)
        in Inr (Node b1 tokens move parent played winner is_full following)))))"

text \<open>\<^verbatim>\<open>Node.isomorphic_to\<close> and \<^verbatim>\<open>Node.__eq__\<close>.\<close>

definition Node_isomorphic_to :: "Node \<Rightarrow> Node \<Rightarrow> error + bool" where
  "Node_isomorphic_to n other = isomorphic_to (node_board n) (node_board other)"

definition Node_eq :: "Node \<Rightarrow> Node \<Rightarrow> bool" where
  "Node_eq n other =
     (node_move n = node_move other \<and> token_played n = token_played other \<and>
      Board_eq (node_board n) (node_board other))"

text \<open>
  \<^verbatim>\<open>Node.children\<close>: \<^verbatim>\<open>None\<close> below a decided node; otherwise one child per possible
  move, kept when it is the first or when
  \<^verbatim>\<open>all(not child.isomorphic_to(other) for other in child_nodes)\<close>, which stops at the first
  isomorphic sibling. The property is evaluated anew at every access. A node without a
  winner has its list of next moves; were the field \<^verbatim>\<open>None\<close>, the \<^verbatim>\<open>for\<close> loop would raise
  the \<^verbatim>\<open>TypeError\<close> of iterating \<^verbatim>\<open>None\<close>.
\<close>

fun all_not_isomorphic :: "Node \<Rightarrow> Node list \<Rightarrow> error + bool" where
  "all_not_isomorphic child [] = Inr True"
| "all_not_isomorphic child (other # rest) =
     and_then (Node_isomorphic_to child other) (\<lambda>iso.
       if iso then Inr False else all_not_isomorphic child rest)"

fun children_loop :: "Node \<Rightarrow> token list \<Rightarrow> position list \<Rightarrow> Node list \<Rightarrow> error + Node list" where
  "children_loop self tokens_rotate [] child_nodes = Inr child_nodes"
| "children_loop self tokens_rotate (move # rest) child_nodes =
     and_then (Node_init (node_board self) tokens_rotate (Some move) (Some self)) (\<lambda>child.
       if child_nodes = [] then children_loop self tokens_rotate rest (child_nodes @ [child])
       else and_then (all_not_isomorphic child child_nodes) (\<lambda>fresh.
              if fresh then children_loop self tokens_rotate rest (child_nodes @ [child])
              else children_loop self tokens_rotate rest child_nodes))"

definition children :: "Node \<Rightarrow> error + Node list option" where
  "children self =
     (if node_winner self \<noteq> None then Inr None
      else
        (let tokens_rotate =
               (if node_parent self = None \<and> node_move self = None then node_tokens self
                else drop 1 (node_tokens self) @ take 1 (node_tokens self))
         in case next_moves self of
              None \<Rightarrow> Inl (TypeError ([CHR 0x27] @ ''NoneType'' @ [CHR 0x27] @ '' object is not iterable''))
            | Some moves \<Rightarrow>
                and_then (children_loop self tokens_rotate moves []) (\<lambda>cs. Inr (Some cs))))"

text \<open>
  \<^verbatim>\<open>NodeIterator\<close>. \<^verbatim>\<open>item in self.visited_nodes\<close> compares with \<^verbatim>\<open>Node.__eq__\<close>.
  \<open>get_unvisited_items\<close> is the local function of \<^verbatim>\<open>depth_first_search\<close>, \<open>ascend\<close> its
  \<^verbatim>\<open>while\<close> loop, which follows the parents and so ends.
\<close>

record NodeIterator =
  node :: Node
  visited_nodes :: "Node list"

definition in_visited :: "Node list \<Rightarrow> Node \<Rightarrow> bool" where
  "in_visited visited item = list_ex (\<lambda>v. Node_eq v item) visited"

definition get_unvisited_items :: "Node list \<Rightarrow> Node list option \<Rightarrow> Node list option" where
  "get_unvisited_items visited items =
     (case items of
        None \<Rightarrow> None
      | Some xs \<Rightarrow>
          if xs = [] then None
          else (let unvisited_items = filter (\<lambda>item. \<not> in_visited visited item) xs
                in if unvisited_items = [] then None else Some unvisited_items))"

fun ascend :: "Node list \<Rightarrow> Node \<Rightarrow> error + Node" where
  "ascend visited (Node b toks mv parent played w fl nm) =
     (let current_node = Node b toks mv parent played w fl nm in
      case children current_node of
        Inl e \<Rightarrow> Inl e
      | Inr ch \<Rightarrow>
          if get_unvisited_items visited ch = None
          then (case parent of None \<Rightarrow> Inr current_node | Some p \<Rightarrow> ascend visited p)
          else Inr current_node)"

text \<open>
  \<^verbatim>\<open>depth_first_search\<close> calls itself; as a function that may not return, its value is
  \<open>None\<close> when it does not. A returned pair is the node that \<^verbatim>\<open>__next__\<close> yields, or the
  exception it raises, and the iterator as the call leaves it.
\<close>

partial_function (option) depth_first_search ::
  "NodeIterator \<Rightarrow> Node \<Rightarrow> ((error + Node) \<times> NodeIterator) option" where
  "depth_first_search self current_node =
     (case children current_node of
        Inl e \<Rightarrow> Some (Inl e, self)
      | Inr ch \<Rightarrow>
          (let unvisited_children = get_unvisited_items (visited_nodes self) ch in
           case (if unvisited_children = None \<and> in_visited (visited_nodes self) current_node
                 then (if node_parent current_node = None then Inl StopIteration
                       else ascend (visited_nodes self) current_node)
                 else Inr current_node) of
             Inl e \<Rightarrow> Some (Inl e, self)
           | Inr current_node' \<Rightarrow>
               (let next_node = (case unvisited_children of
                                   Some uc \<Rightarrow> uc ! 0
                                 | None \<Rightarrow> current_node');
                    self' = self \<lparr> node := next_node \<rparr>
                in if \<not> in_visited (visited_nodes self') current_node'
                   then Some (Inr current_node',
                              self' \<lparr> visited_nodes := visited_nodes self' @ [current_node'] \<rparr>)
                   else depth_first_search self' next_node)))"

declare depth_first_search.simps [code]

definition NodeIterator_next :: "NodeIterator \<Rightarrow> ((error + Node) \<times> NodeIterator) option" where
  "NodeIterator_next self = depth_first_search self (node self)"

definition Node_iter :: "Node \<Rightarrow> NodeIterator" where
  "Node_iter n = \<lparr> node = n, visited_nodes = [] \<rparr>"

text \<open>The consumer \<^verbatim>\<open>for n in node\<close>: it calls \<^verbatim>\<open>__next__\<close> until \<^verbatim>\<open>StopIteration\<close> and
  here collects what was yielded.\<close>

partial_function (option) collect ::
  "NodeIterator \<Rightarrow> Node list \<Rightarrow> (error + Node list) option" where
  "collect self yielded =
     (case NodeIterator_next self of
        None \<Rightarrow> None
      | Some (Inl e, _) \<Rightarrow> (if e = StopIteration then Some (Inr yielded) else Some (Inl e))
      | Some (Inr n, self') \<Rightarrow> collect self' (yielded @ [n]))"

declare collect.simps [code]

definition iterate :: "Node \<Rightarrow> (error + Node list) option" where
  "iterate n = collect (Node_iter n) []"


subsection \<open>The tree and its pre-order, for stating what the iterator does\<close>

text \<open>
  The children of a node as a list (none below a decided node, and none where
  \<^verbatim>\<open>children\<close> raises, which it does not in the tree below a root), the pre-order listing
  of the tree below a node, and the first occurrences in a list when nodes are compared
  by \<^verbatim>\<open>Node.__eq__\<close>. A child has one empty cell less than its parent, so the number of
  empty cells of a node bounds the height of its tree, and \<open>subtree\<close> unfolds the
  pre-order that often.
\<close>

definition children_list :: "Node \<Rightarrow> Node list" where
  "children_list n = (case children n of Inr (Some cs) \<Rightarrow> cs | _ \<Rightarrow> [])"

fun preorder :: "nat \<Rightarrow> Node \<Rightarrow> Node list" where
  "preorder 0 n = [n]"
| "preorder (Suc k) n = n # concat (map (preorder k) (children_list n))"

definition rank :: "Node \<Rightarrow> nat" where
  "rank n = length (empty_cells (node_board n))"

definition subtree :: "Node \<Rightarrow> Node list" where
  "subtree n = preorder (rank n) n"

fun first_occurrences :: "Node list \<Rightarrow> Node list \<Rightarrow> Node list" where
  "first_occurrences seen [] = []"
| "first_occurrences seen (x # xs) =
     (if in_visited seen x then first_occurrences seen xs
      else x # first_occurrences (seen @ [x]) xs)"

subsection \<open>Notions used in the proofs about the tree\<close>

text \<open>
  What \<^verbatim>\<open>Node.__init__\<close> builds from a board on which the move has been played
  (\<open>made_node\<close>), the board after a copy and a successful play (\<open>played_board\<close>), the
  child that \<^verbatim>\<open>children\<close> builds for a move (\<open>child_node\<close>), and the loop of
  \<^verbatim>\<open>children\<close> with the isomorphism test read off the grids (\<open>prune\<close>).
\<close>

definition winner_field :: "Board \<Rightarrow> string option" where
  "winner_field b =
     (if first_winning_token b = None \<and> full b then Some ''Draw'' else first_winning_token b)"

definition made_node ::
  "Board \<Rightarrow> token list \<Rightarrow> position option \<Rightarrow> Node option \<Rightarrow> token option \<Rightarrow> Node" where
  "made_node b toks mv parent played =
     Node b toks mv parent played (winner_field b) (full b)
       (if winner_field b = None then Some (empty_cells b) else None)"

definition tokens_rotate :: "Node \<Rightarrow> token list" where
  "tokens_rotate n =
     (if node_parent n = None \<and> node_move n = None then node_tokens n
      else rotate1 (node_tokens n))"

definition played_board :: "Board \<Rightarrow> position \<Rightarrow> token \<Rightarrow> Board" where
  "played_board b mv t =
     b \<lparr> num_cells := num_rows b * num_rows b,
         board := (board b)[nat (fst mv) := (board b ! nat (fst mv))[nat (snd mv) := t]],
         played_positions := played_positions b @ [mv],
         played_tokens := played_tokens b @ [t],
         empty_cells := remove1 mv (empty_cells b) \<rparr>"

definition child_node :: "Node \<Rightarrow> position \<Rightarrow> Node" where
  "child_node n mv =
     made_node (played_board (node_board n) mv (hd (tokens_rotate n))) (tokens_rotate n)
       (Some mv) (Some n) (Some (hd (tokens_rotate n)))"

definition same_class :: "Node \<Rightarrow> Node \<Rightarrow> bool" where
  "same_class c other =
     (board (node_board c) \<in>
        set (board (node_board other) #
             transforms (num_rows (node_board other)) (board (node_board other))))"

fun prune :: "Node list \<Rightarrow> Node list \<Rightarrow> Node list" where
  "prune [] kept = kept"
| "prune (c # cs) kept =
     prune cs (if list_ex (same_class c) kept then kept else kept @ [c])"

text \<open>
  The nodes of the tree below a root: their boards satisfy the invariant of the board,
  their fields are what \<^verbatim>\<open>__init__\<close> computes, the tokens are valid, the list of empty
  cells is the root's without the cells filled since, and the token list is the root's
  rotated once per level (not at the level below a root that has no move).
\<close>

definition game_node :: "Node \<Rightarrow> Node \<Rightarrow> bool" where
  "game_node rt n =
     (strong_invariant (node_board n) \<and>
      n = made_node (node_board n) (node_tokens n) (node_move n) (node_parent n) (token_played n) \<and>
      node_tokens n \<noteq> [] \<and> empty \<notin> set (node_tokens n) \<and>
      num_rows (node_board n) = num_rows (node_board rt) \<and>
      num_cells (node_board n) = num_rows (node_board n) * num_rows (node_board n) \<and>
      empty_cells (node_board n) =
        filter (\<lambda>(r, c). board (node_board n) ! nat r ! nat c = empty)
          (empty_cells (node_board rt)) \<and>
      node_tokens n =
        rotate (rank rt - rank n - (if node_move rt = None then 1 else 0))
          (node_tokens rt) \<and>
      node_parent rt = None \<and> strong_invariant (node_board rt) \<and>
      (n = rt \<or>
       (node_move n \<noteq> None \<and> node_parent n \<noteq> None \<and> rank n < rank rt \<and>
        token_played n = Some (hd (node_tokens n)))))"

text \<open>The children of a node that have not been visited, as \<^verbatim>\<open>get_unvisited_items\<close>
  returns them.\<close>

definition unvisited :: "Node list \<Rightarrow> Node \<Rightarrow> Node list option" where
  "unvisited visited n =
     (let u = filter (\<lambda>c. \<not> in_visited visited c) (children_list n)
      in if u = [] then None else Some u)"

text \<open>The visited list after the traversal of the tree below a node that is not yet
  visited: the node, then each child in turn unless it is visited by then.\<close>

fun trav :: "nat \<Rightarrow> Node list \<Rightarrow> Node \<Rightarrow> Node list" where
  "trav 0 V n = V @ [n]"
| "trav (Suc k) V n =
     foldl (\<lambda>W c. if in_visited W c then W else trav k W c) (V @ [n]) (children_list n)"

text \<open>One step of that loop over the children.\<close>

definition visit :: "nat \<Rightarrow> Node list \<Rightarrow> Node \<Rightarrow> Node list" where
  "visit k W c = (if in_visited W c then W else trav k W c)"

text \<open>\<open>up_chain rt V c x\<close>: \<open>x\<close> is \<open>c\<close> or lies below it, and from \<open>x\<close> up to \<open>c\<close> every
  node is a node of the tree, is visited and has no unvisited child.\<close>

inductive up_chain :: "Node \<Rightarrow> Node list \<Rightarrow> Node \<Rightarrow> Node \<Rightarrow> bool" for rt V c where
  base: "game_node rt c \<Longrightarrow> in_visited V c \<Longrightarrow> unvisited V c = None \<Longrightarrow> up_chain rt V c c"
| step: "up_chain rt V c p \<Longrightarrow> node_parent x = Some p \<Longrightarrow> game_node rt x \<Longrightarrow>
         in_visited V x \<Longrightarrow> unvisited V x = None \<Longrightarrow> up_chain rt V c x"

text \<open>
  \<open>traversed rt k\<close>: started on an unvisited node of the tree of height at most \<open>k\<close>, the
  consumer of the iterator comes to a position below that node where the visited list is
  that of the traversal and what it has collected is what the traversal added.
  \<open>finished rt r W\<close>: the visited nodes are nodes of the tree, and those with at most
  \<open>r\<close> empty cells have all their children visited. \<open>trav_spec rt k\<close>: from such a
  visited list the traversal below an unvisited node adds the first occurrences in the
  pre-order of its tree, and keeps the list finished.
\<close>

definition traversed :: "Node \<Rightarrow> nat \<Rightarrow> bool" where
  "traversed rt k =
     (\<forall>c V acc. game_node rt c \<longrightarrow> \<not> in_visited V c \<longrightarrow> rank c \<le> k \<longrightarrow>
        (\<exists>x. collect \<lparr> node = c, visited_nodes = V \<rparr> acc =
              collect \<lparr> node = x, visited_nodes = trav k V c \<rparr>
                (acc @ drop (length V) (trav k V c)) \<and>
             up_chain rt (trav k V c) c x))"

definition finished :: "Node \<Rightarrow> nat \<Rightarrow> Node list \<Rightarrow> bool" where
  "finished rt r W =
     (\<forall>v \<in> set W. game_node rt v \<and>
        (rank v \<le> r \<longrightarrow> (\<forall>x \<in> set (children_list v). in_visited W x)))"

definition trav_spec :: "Node \<Rightarrow> nat \<Rightarrow> bool" where
  "trav_spec rt k =
     (\<forall>n V. game_node rt n \<longrightarrow> rank n \<le> k \<longrightarrow> \<not> in_visited V n \<longrightarrow> finished rt (rank n) V \<longrightarrow>
        trav k V n = V @ first_occurrences V (preorder k n) \<and>
        finished rt (rank n) (trav k V n) \<and>
        (\<forall>v \<in> set (trav k V n). v \<in> set V \<or> rank v \<le> rank n))"

text \<open>The root of the fresh 1 by 1 board for the tokens \<^verbatim>\<open>['O', 'X']\<close> and its only
  child.\<close>

definition root_1x1 :: Node where
  "root_1x1 = made_node (rectified 1 [['' '']]) [''O'', ''X''] None None None"

definition child_1x1 :: Node where
  "child_1x1 = child_node root_1x1 (0, 0)"

text \<open>The root for the tokens \<^verbatim>\<open>['X', 'O']\<close> on the 2 by 2 board on which \<^verbatim>\<open>O\<close> has
  played \<open>(0, 0)\<close>.\<close>

definition root_2x2_O :: Node where
  "root_2x2_O = made_node board_2x2_O [''X'', ''O''] None None None"


section \<open>Facts about the board\<close>

lemma and_then_simps [simp]:
  "and_then (Inl e) f = Inl e" "and_then (Inr x) f = f x"
  by (simp_all add: and_then_def)

lemma map_result_Inr:
  "(\<And>x. x \<in> set xs \<Longrightarrow> f x = Inr (g x)) \<Longrightarrow> map_result f xs = Inr (map g xs)"
  by (induction xs) simp_all

lemma list_index_nat [simp]: "list_index n (int i) = (if i < n then Some i else None)"
  by (simp add: list_index_def)

lemma getitem_nat: "i < length xs \<Longrightarrow> getitem xs (int i) = Inr (xs ! i)"
  by (simp add: getitem_def)

lemma square_grid_nth: "square_grid n g \<Longrightarrow> r < n \<Longrightarrow> length (g ! r) = n"
  by (auto simp: square_grid_def list_all_length)

lemma square_grid_length: "square_grid n g \<Longrightarrow> length g = n"
  by (simp add: square_grid_def)

lemma cell_read:
  "square_grid n g \<Longrightarrow> r < n \<Longrightarrow> c < n \<Longrightarrow>
   and_then (getitem g (int r)) (\<lambda>row. getitem row (int c)) = Inr (g ! r ! c)"
  by (simp add: getitem_nat square_grid_nth square_grid_length)

lemma columns_well_formed:
  assumes "well_formed b"
  shows "columns b = Inr (grid_columns (num_rows b) (board b))"
proof -
  let ?n = "num_rows b" and ?g = "board b"
  have sq: "square_grid ?n ?g" and nc: "num_cols b = ?n"
    using assms by (simp_all add: well_formed_def)
  have inner: "map_result (\<lambda>row. and_then (getitem ?g (int row)) (\<lambda>r. getitem r (int col))) [0..<?n]
      = Inr (map (\<lambda>row. ?g ! row ! col) [0..<?n])" if "col < ?n" for col
    using that sq by (intro map_result_Inr) (simp add: cell_read)
  show ?thesis
    unfolding columns_def grid_columns_def nc
    by (rule map_result_Inr) (simp add: inner)
qed

lemma main_diagonal_well_formed:
  assumes "well_formed b"
  shows "main_diagonal b = Inr (map (\<lambda>i. board b ! i ! i) [0..<num_rows b])"
proof -
  have sq: "square_grid (num_rows b) (board b)"
    using assms by (simp add: well_formed_def)
  show ?thesis
    unfolding main_diagonal_def by (intro map_result_Inr) (simp add: cell_read [OF sq])
qed

lemma anti_diagonal_well_formed:
  assumes "well_formed b"
  shows "anti_diagonal b = Inr (map (\<lambda>i. board b ! i ! (num_rows b - i - 1)) [0..<num_rows b])"
proof -
  have sq: "square_grid (num_rows b) (board b)" and nc: "num_cols b = num_rows b"
    using assms by (simp_all add: well_formed_def)
  have "and_then (getitem (board b) (int i)) (\<lambda>r. getitem r (int (num_rows b) - int i - 1))
       = Inr (board b ! i ! (num_rows b - i - 1))" if "i < num_rows b" for i
  proof -
    have "int (num_rows b) - int i - 1 = int (num_rows b - i - 1)"
      using that by simp
    then show ?thesis
      using cell_read [OF sq that, of "num_rows b - i - 1"] that by (simp only:)
  qed
  then show ?thesis
    unfolding anti_diagonal_def nc by (intro map_result_Inr) simp
qed



lemma board_iter_past_end: "length g \<le> r \<Longrightarrow> board_iter g r c = []"
  by (subst board_iter.simps) simp

lemma grid_cells_end [simp]: "grid_cells g n n = []"
  by (simp add: grid_cells_def)

lemma grid_cells_step: "r < n \<Longrightarrow> grid_cells g n r = row_cells g n r 0 @ grid_cells g n (Suc r)"
  by (simp add: grid_cells_def upt_conv_Cons)

lemma row_cells_step:
  "c < n \<Longrightarrow> row_cells g n r c = ((int r, int c), g ! r ! c) # row_cells g n r (Suc c)"
  by (simp add: row_cells_def upt_conv_Cons)

lemma row_cells_end [simp]: "row_cells g n r n = []"
  by (simp add: row_cells_def)

lemma board_iter_square:
  "square_grid n g \<Longrightarrow> r < n \<Longrightarrow> c < n \<Longrightarrow>
   board_iter g r c = row_cells g n r c @ grid_cells g n (Suc r)"
proof (induction g r c rule: board_iter.induct)
  case (1 g r c)
  have len: "length g = n" "length (g ! r) = n" "length (g ! 0) = n"
    using "1.prems" by (simp_all add: square_grid_length square_grid_nth)
  show ?case
  proof (cases "c < n - 1")
    case True
    then have "board_iter g r (c + 1) = row_cells g n r (c + 1) @ grid_cells g n (Suc r)"
      using "1.IH"(1) "1.prems" len by simp
    then show ?thesis
      using True len "1.prems" by (subst board_iter.simps) (simp add: row_cells_step)
  next
    case False
    then have c: "Suc c = n" using "1.prems" by simp
    have "board_iter g (r + 1) 0 = grid_cells g n (Suc r)"
    proof (cases "Suc r < n")
      case True
      then show ?thesis
        using "1.IH"(2) "1.prems" len False by (simp add: grid_cells_step)
    next
      case False
      then have "Suc r = n" using "1.prems" by simp
      then show ?thesis using len by (simp add: board_iter_past_end)
    qed
    then show ?thesis
      using False len "1.prems" c by (subst board_iter.simps) (simp add: row_cells_step)
  qed
qed

lemma board_iter_all:
  "square_grid n g \<Longrightarrow> board_iter g 0 0 = grid_cells g n 0"
proof (cases "n = 0")
  case True
  assume "square_grid n g"
  then show ?thesis using True by (simp add: board_iter_past_end square_grid_length)
next
  case False
  assume "square_grid n g"
  then show ?thesis using False by (simp add: board_iter_square grid_cells_step)
qed

lemma rectify_cells_eq:
  "rectify_cells cs b =
     b \<lparr> empty_cells := empty_cells b @ map fst (filter (\<lambda>(p, cell). cell = empty) cs),
         played_positions := played_positions b @ map fst (filter (\<lambda>(p, cell). cell \<noteq> empty) cs),
         played_tokens := played_tokens b @ map snd (filter (\<lambda>(p, cell). cell \<noteq> empty) cs) \<rparr>"
  by (induction cs b rule: rectify_cells.induct) simp_all

lemma nat_int_bounds: "0 \<le> i \<Longrightarrow> i < int n \<Longrightarrow> list_index n i = Some (nat i)"
  by (simp add: list_index_def)

lemma board_2x2_O_reached:
  "Board_init 2 2 = Inr b0 \<Longrightarrow> Board_play b0 0 0 ''O'' = (None, board_2x2_O)"
  by (auto simp: Board_init_def Board_play_def board_2x2_O_def list_index_def empty_def numeral_2_eq_2)


subsection \<open>Rotations and reflections of a square grid\<close>

lemma grid_ext:
  assumes "square_grid n g" "square_grid n g'"
    and "\<And>i j. i < n \<Longrightarrow> j < n \<Longrightarrow> g ! i ! j = g' ! i ! j"
  shows "g = g'"
proof (rule nth_equalityI)
  show "length g = length g'"
    using assms(1,2) by (simp add: square_grid_length)
next
  fix i assume "i < length g"
  then have i: "i < n" using assms(1) by (simp add: square_grid_length)
  show "g ! i = g' ! i"
  proof (rule nth_equalityI)
    show "length (g ! i) = length (g' ! i)"
      using i assms(1,2) by (simp add: square_grid_nth)
  next
    fix j assume "j < length (g ! i)"
    then have "j < n" using i assms(1) by (simp add: square_grid_nth)
    then show "g ! i ! j = g' ! i ! j" using i assms(3) by simp
  qed
qed

lemma square_grid_rev [simp]: "square_grid n (rev g) = square_grid n g"
  by (auto simp: square_grid_def list_all_iff)

lemma square_grid_map_rev [simp]: "square_grid n (map rev g) = square_grid n g"
  by (auto simp: square_grid_def list_all_iff)

lemma square_grid_columns [simp]: "square_grid n (grid_columns n g)"
  by (simp add: square_grid_def grid_columns_def list_all_iff)

lemma nth_grid_columns [simp]:
  "i < n \<Longrightarrow> j < n \<Longrightarrow> grid_columns n g ! i ! j = g ! j ! i"
  by (simp add: grid_columns_def)

lemma nth_grid_rev:
  "square_grid n g \<Longrightarrow> i < n \<Longrightarrow> rev g ! i = g ! (n - 1 - i)"
  by (simp add: square_grid_def rev_nth)

lemma nth_grid_map_rev:
  "square_grid n g \<Longrightarrow> i < n \<Longrightarrow> j < n \<Longrightarrow> map rev g ! i ! j = g ! i ! (n - 1 - j)"
  by (simp add: square_grid_def rev_nth list_all_length)

lemma transpose_twice: "square_grid n g \<Longrightarrow> grid_columns n (grid_columns n g) = g"
  by (rule grid_ext [of n]) simp_all

lemma rot270_rot90:
  "square_grid n g \<Longrightarrow> rev (grid_columns n (map rev (grid_columns n g))) = g"
  by (rule grid_ext [of n]) (simp_all add: nth_grid_rev [of n] nth_grid_map_rev [of n])

lemma rot90_rot270:
  "square_grid n g \<Longrightarrow> map rev (grid_columns n (rev (grid_columns n g))) = g"
  by (rule grid_ext [of n]) (simp_all add: nth_grid_rev [of n] nth_grid_map_rev [of n])

lemma rot180_twice: "map rev (rev (map rev (rev g))) = g"
  by (simp add: rev_map)

lemma anti_transpose_twice:
  "square_grid n g \<Longrightarrow>
   map rev (rev (grid_columns n (map rev (rev (grid_columns n g))))) = g"
  by (rule grid_ext [of n]) (simp_all add: nth_grid_rev [of n] nth_grid_map_rev [of n])

lemma Board_init_same:
  "Board_init n n =
     Inr \<lparr> num_rows = n, num_cols = n, num_cells = n * n,
           board = replicate n (replicate n empty),
           played_positions = [], played_tokens = [],
           empty_cells = concat (map (\<lambda>i. map (\<lambda>j. (int i, int j)) [0..<n]) [0..<n]) \<rparr>"
  by (simp add: Board_init_def)

lemma recitfy_square:
  assumes "well_formed b" "num_cells b = num_rows b * num_rows b"
  shows "recitfy_game_history b = rectified (num_rows b) (board b)"
proof -
  have sq: "square_grid (num_rows b) (board b)" and nc: "num_cols b = num_rows b"
    using assms(1) by (simp_all add: well_formed_def)
  show ?thesis
    using assms(2) nc
    by (simp add: recitfy_game_history_def rectify_cells_eq board_iter_all [OF sq] rectified_def)
qed

lemma Board_copy_well_formed:
  "num_cols b = num_rows b \<Longrightarrow>
   Board_copy b = Inr (b \<lparr> num_cells := num_rows b * num_rows b \<rparr>)"
  by (simp add: Board_copy_def Board_init_same rows_def)

lemma Board_rotate_90:
  assumes "well_formed b"
  shows "Board_rotate b 90 = Inr (rectified (num_rows b) (map rev (grid_columns (num_rows b) (board b))))"
proof -
  have nc: "num_cols b = num_rows b" using assms by (simp add: well_formed_def)
  show ?thesis
    by (simp add: Board_rotate_def nc Board_init_same columns_well_formed [OF assms] recitfy_square well_formed_def)
qed

lemma Board_rotate_180:
  assumes "well_formed b"
  shows "Board_rotate b 180 = Inr (rectified (num_rows b) (map rev (rev (board b))))"
proof -
  have nc: "num_cols b = num_rows b" and sq: "square_grid (num_rows b) (board b)"
    using assms by (simp_all add: well_formed_def)
  show ?thesis
    by (simp add: Board_rotate_def nc Board_init_same rows_def recitfy_square well_formed_def sq)
qed

lemma Board_rotate_270:
  assumes "well_formed b"
  shows "Board_rotate b 270 = Inr (rectified (num_rows b) (rev (grid_columns (num_rows b) (board b))))"
proof -
  have nc: "num_cols b = num_rows b" using assms by (simp add: well_formed_def)
  show ?thesis
    by (simp add: Board_rotate_def nc Board_init_same columns_well_formed [OF assms] recitfy_square well_formed_def)
qed

lemma Board_reflect_eq:
  assumes "well_formed b"
  shows "lower a \<in> {''horizontal'', ''h''} \<Longrightarrow>
           Board_reflect b a = Inr (rectified (num_rows b) (rev (board b)))"
    and "lower a \<in> {''vertical'', ''v''} \<Longrightarrow>
           Board_reflect b a = Inr (rectified (num_rows b) (map rev (board b)))"
    and "lower a \<in> {''main diagonal'', ''md''} \<Longrightarrow>
           Board_reflect b a =
             Inr (rectified (num_rows b) (map rev (rev (grid_columns (num_rows b) (board b)))))"
    and "lower a \<in> {''anti-diagonal'', ''ad''} \<Longrightarrow>
           Board_reflect b a = Inr (rectified (num_rows b) (grid_columns (num_rows b) (board b)))"
proof -
  have nc: "num_cols b = num_rows b" and sq: "square_grid (num_rows b) (board b)"
    using assms by (simp_all add: well_formed_def)
  note s = Board_reflect_def Let_def Board_copy_well_formed [OF nc] columns_well_formed [OF assms]
    rows_def recitfy_square well_formed_def sq nc
  show "lower a \<in> {''horizontal'', ''h''} \<Longrightarrow>
           Board_reflect b a = Inr (rectified (num_rows b) (rev (board b)))"
    by (auto simp: s)
  show "lower a \<in> {''vertical'', ''v''} \<Longrightarrow>
           Board_reflect b a = Inr (rectified (num_rows b) (map rev (board b)))"
    by (auto simp: s)
  show "lower a \<in> {''main diagonal'', ''md''} \<Longrightarrow>
           Board_reflect b a =
             Inr (rectified (num_rows b) (map rev (rev (grid_columns (num_rows b) (board b)))))"
    by (auto simp: s)
  show "lower a \<in> {''anti-diagonal'', ''ad''} \<Longrightarrow>
           Board_reflect b a = Inr (rectified (num_rows b) (grid_columns (num_rows b) (board b)))"
    by (auto simp: s)
qed

lemma lower_names [simp]:
  "lower ''h'' = ''h''" "lower ''v'' = ''v''" "lower ''md'' = ''md''" "lower ''ad'' = ''ad''"
  by (simp_all add: lower_def lower_char_def)

lemma board_rectified [simp]: "board (rectified n g) = g"
  by (simp add: rectified_def)

lemma dedup_image:
  "board ` set ((b # filter (\<lambda>x. \<not> Board_eq x b) R) @
      filter (\<lambda>x. \<not> list_ex (\<lambda>y. Board_eq y x) (b # filter (\<lambda>x. \<not> Board_eq x b) R)) F)
   = board ` ({b} \<union> set R \<union> set F)" (is "?L = ?R")
proof (intro equalityI subsetI)
  fix g assume "g \<in> ?L"
  then show "g \<in> ?R" by auto
next
  fix g assume "g \<in> ?R"
  then obtain y where y: "y \<in> {b} \<union> set R \<union> set F" and g: "g = board y" by auto
  let ?rot = "b # filter (\<lambda>x. \<not> Board_eq x b) R"
  have rot: "g \<in> board ` set ?rot" if "y \<in> {b} \<union> set R"
  proof (cases "board y = board b")
    case True
    then show ?thesis using g by simp
  next
    case False
    then have "y \<in> set ?rot" using that by (auto simp: Board_eq_def)
    then show ?thesis using g by blast
  qed
  show "g \<in> ?L"
  proof (cases "y \<in> {b} \<union> set R")
    case True
    then show ?thesis using rot by auto
  next
    case False
    then have yF: "y \<in> set F" using y by simp
    show ?thesis
    proof (cases "list_ex (\<lambda>z. Board_eq z y) ?rot")
      case True
      then have "\<exists>z. z \<in> set ?rot \<and> board z = board y"
        unfolding list_ex_iff Board_eq_def by blast
      then obtain z where "z \<in> set ?rot" "board z = board y"
        by blast
      then have "g \<in> board ` set ?rot" using g by (metis imageI)
      then show ?thesis by auto
    next
      case False
      then have "y \<in> set (filter (\<lambda>x. \<not> list_ex (\<lambda>y. Board_eq y x) ?rot) F)"
        using yF by simp
      then show ?thesis using g by auto
    qed
  qed
qed

lemma isomorphisms_well_formed:
  assumes "well_formed b"
  shows "\<exists>isos. isomorphisms b = Inr isos \<and> hd isos = b \<and> isos \<noteq> [] \<and>
           board ` set isos = set (board b # transforms (num_rows b) (board b))"
proof -
  let ?n = "num_rows b" and ?g = "board b"
  let ?R = "map (rectified ?n) (take 3 (transforms ?n ?g))"
  let ?F = "map (rectified ?n) (drop 3 (transforms ?n ?g))"
  let ?rot = "b # filter (\<lambda>x. \<not> Board_eq x b) ?R"
  let ?ref = "filter (\<lambda>x. \<not> list_ex (\<lambda>y. Board_eq y x) ?rot) ?F"
  have rot: "map_result (Board_rotate b) [90, 180, 270] = Inr ?R"
    by (simp add: Board_rotate_90 [OF assms] Board_rotate_180 [OF assms]
        Board_rotate_270 [OF assms] transforms_def)
  have ref: "map_result (Board_reflect b) [''h'', ''v'', ''md'', ''ad''] = Inr ?F"
    by (simp add: Board_reflect_eq [OF assms] transforms_def)
  have iso: "isomorphisms b = Inr (?rot @ ?ref)"
    unfolding isomorphisms_def rot ref by (simp add: Let_def)
  have "board ` set (?rot @ ?ref) = board ` ({b} \<union> set ?R \<union> set ?F)"
    by (rule dedup_image)
  also have "\<dots> = set (?g # map board ?R @ map board ?F)"
    by (simp add: image_Un image_image)
  also have "map board ?R @ map board ?F = transforms ?n ?g"
    by (simp add: comp_def flip: take_map drop_map)
  finally show ?thesis using iso by auto
qed

lemma orbit_symmetric:
  assumes "square_grid n ga" "square_grid n gb" "ga \<in> set (gb # transforms n gb)"
  shows "gb \<in> set (ga # transforms n ga)"
proof -
  consider "ga = gb" | "ga = map rev (grid_columns n gb)" | "ga = map rev (rev gb)"
    | "ga = rev (grid_columns n gb)" | "ga = rev gb" | "ga = map rev gb"
    | "ga = map rev (rev (grid_columns n gb))" | "ga = grid_columns n gb"
    using assms(3) by (auto simp: transforms_def)
  then show ?thesis
  proof cases
    case 1 then show ?thesis by simp
  next
    case 2
    then have "rev (grid_columns n ga) = gb" using assms(2) by (simp add: rot270_rot90)
    then show ?thesis by (auto simp: transforms_def)
  next
    case 3
    then have "map rev (rev ga) = gb" by (simp add: rot180_twice)
    then show ?thesis by (auto simp: transforms_def)
  next
    case 4
    then have "map rev (grid_columns n ga) = gb" using assms(2) by (simp add: rot90_rot270)
    then show ?thesis by (auto simp: transforms_def)
  next
    case 5
    then have "rev ga = gb" by simp
    then show ?thesis by (auto simp: transforms_def)
  next
    case 6
    then have "map rev ga = gb" by (simp add: comp_def)
    then show ?thesis by (auto simp: transforms_def)
  next
    case 7
    then have "map rev (rev (grid_columns n ga)) = gb"
      using assms(2) by (simp add: anti_transpose_twice)
    then show ?thesis by (auto simp: transforms_def)
  next
    case 8
    then have "grid_columns n ga = gb" using assms(2) by (simp add: transpose_twice)
    then show ?thesis by (auto simp: transforms_def)
  qed
qed

lemma isomorphic_to_well_formed:
  assumes "well_formed b"
  shows "isomorphic_to a b = Inr (board a \<in> set (board b # transforms (num_rows b) (board b)))"
proof -
  obtain isos where iso: "isomorphisms b = Inr isos"
    and img: "board ` set isos = set (board b # transforms (num_rows b) (board b))"
    using isomorphisms_well_formed [OF assms] by blast
  have "list_ex (\<lambda>y. Board_eq y a) isos = (board a \<in> board ` set isos)"
    unfolding list_ex_iff Board_eq_def image_iff by (metis (no_types))
  then show ?thesis
    unfolding isomorphic_to_def iso img by simp
qed


lemma board_2x2_O_well_formed: "well_formed board_2x2_O"
  by (simp add: well_formed_def square_grid_def board_2x2_O_def)


subsection \<open>The winner\<close>

lemma or_else_simps [simp]:
  "or_else (Inr None) k = k" "or_else (Inr (Some w)) k = Inr (Some w)" "or_else (Inl e) k = Inl e"
  by (simp_all add: or_else_def)

lemma check_lines_find:
  "(\<And>line. line \<in> set ls \<Longrightarrow> line \<noteq> []) \<Longrightarrow>
   check_lines ls = Inr (map_option hd (find winning_line ls))"
proof (induction ls)
  case Nil
  then show ?case by simp
next
  case (Cons line rest)
  then obtain w ws where line: "line = w # ws"
    by (cases line) auto
  have eq: "(\<forall>cell\<in>set ws. w = cell) = (\<forall>cell\<in>set ws. cell = w)"
    by auto
  show ?case
    using Cons.IH Cons.prems unfolding line
    by (simp add: winning_line_def list_all_iff eq)
qed

lemma find_append_cases:
  "find P (xs @ ys) = (case find P xs of None \<Rightarrow> find P ys | Some x \<Rightarrow> Some x)"
  by (induction xs) simp_all

lemma or_else_find:
  "or_else (Inr (map_option hd (find P xs))) (Inr (map_option hd (find P ys)))
   = Inr (map_option hd (find P (xs @ ys)))"
  by (cases "find P xs") (simp_all add: find_append_cases)

lemma Board_winner_first_line:
  assumes "well_formed b" "0 < num_rows b"
  shows "Board_winner b = Inr (first_winning_token b)"
proof -
  let ?n = "num_rows b"
  let ?md = "map (\<lambda>i. board b ! i ! i) [0..<?n]"
  let ?ad = "map (\<lambda>i. board b ! i ! (?n - i - 1)) [0..<?n]"
  have sq: "square_grid ?n (board b)"
    using assms(1) by (simp add: well_formed_def)
  have rows: "check_lines (rows b) = Inr (map_option hd (find winning_line (board b)))"
    unfolding rows_def
  proof (rule check_lines_find)
    fix line assume "line \<in> set (board b)"
    then have "length line = ?n" using sq by (auto simp: square_grid_def list_all_iff)
    then show "line \<noteq> []" using assms(2) by auto
  qed
  have cols: "check_lines (grid_columns ?n (board b))
      = Inr (map_option hd (find winning_line (grid_columns ?n (board b))))"
  proof (rule check_lines_find)
    fix line assume "line \<in> set (grid_columns ?n (board b))"
    then have "length line = ?n" by (auto simp: grid_columns_def)
    then show "line \<noteq> []" using assms(2) by auto
  qed
  have md: "check_lines [?md] = Inr (map_option hd (find winning_line [?md]))"
    using assms(2) by (intro check_lines_find) auto
  have ad: "check_lines [?ad] = Inr (map_option hd (find winning_line [?ad]))"
    using assms(2) by (intro check_lines_find) auto
  show ?thesis
    unfolding Board_winner_def first_winning_token_def lines_in_order_def
      columns_well_formed [OF assms(1)] main_diagonal_well_formed [OF assms(1)]
      anti_diagonal_well_formed [OF assms(1)] and_then_simps rows cols md ad or_else_find
    by simp
qed


subsection \<open>The invariant of played and empty cells\<close>

lemma set_grid_cells:
  "set (grid_cells g n 0) = {((int r, int c), g ! r ! c) | r c. r < n \<and> c < n}"
  by (auto simp: grid_cells_def row_cells_def)

lemma map_fst_grid_cells:
  "map fst (grid_cells g n 0) = concat (map (\<lambda>r. map (\<lambda>c. (int r, int c)) [0..<n]) [0..<n])"
  by (simp add: grid_cells_def row_cells_def map_concat comp_def)

lemma set_positions:
  "set (concat (map (\<lambda>r. map (\<lambda>c. (int r, int c)) [0..<m]) [0..<n]))
   = {(int r, int c) | r c. r < n \<and> c < m}"
  by auto


lemma distinct_positions:
  "distinct (concat (map (\<lambda>r. map (\<lambda>c. (int r, int c)) [0..<m]) [0..<n]))"
proof (induction n)
  case 0
  then show ?case by simp
next
  case (Suc n)
  have "distinct (map (\<lambda>c. (int n, int c)) [0..<m])"
    by (simp add: distinct_map inj_on_def)
  moreover have "set (concat (map (\<lambda>r. map (\<lambda>c. (int r, int c)) [0..<m]) [0..<n]))
      \<inter> set (map (\<lambda>c. (int n, int c)) [0..<m]) = {}"
    unfolding set_positions by auto
  ultimately show ?case using Suc by simp
qed

lemma length_positions:
  "length (concat (map (\<lambda>r. map (\<lambda>c. (int r, int c)) [0..<m]) [0..<n])) = n * m"
  by (simp add: length_concat comp_def sum_list_triv)



lemma strong_invariant_board_invariant:
  assumes "strong_invariant b"
  shows "board_invariant b"
proof -
  let ?n = "num_rows b"
  have nc: "num_cols b = ?n" and d: "distinct (played_positions b)" "distinct (empty_cells b)"
    and dj: "set (played_positions b) \<inter> set (empty_cells b) = {}"
    and un: "set (played_positions b) \<union> set (empty_cells b) = set (all_cells b)"
    and cl: "\<And>r c. r < ?n \<Longrightarrow> c < ?n \<Longrightarrow>
               (board b ! r ! c = empty) = ((int r, int c) \<in> set (empty_cells b))"
    using assms by (simp_all add: strong_invariant_def well_formed_def)
  have "length (played_positions b) + length (empty_cells b)
      = card (set (played_positions b)) + card (set (empty_cells b))"
    using d by (simp add: distinct_card)
  also have "\<dots> = card (set (played_positions b) \<union> set (empty_cells b))"
    using dj by (simp add: card_Un_disjoint)
  also have "\<dots> = length (all_cells b)"
    unfolding un all_cells_def by (rule distinct_card) (rule distinct_positions)
  also have "\<dots> = ?n * num_cols b"
    by (simp add: all_cells_def length_positions)
  finally have len: "length (played_positions b) + length (empty_cells b) = ?n * num_cols b" .
  have "list_all (\<lambda>(r, c). (board b ! nat r ! nat c = empty) = ((r, c) \<in> set (empty_cells b)))
          (all_cells b)"
    unfolding list_all_iff all_cells_def set_positions nc using cl by auto
  then show ?thesis
    using dj un len by (simp add: board_invariant_def)
qed

lemma strong_invariant_init:
  assumes "Board_init n m = Inr b"
  shows "strong_invariant b"
proof -
  have nm: "m = n" and b: "b = \<lparr> num_rows = n, num_cols = n, num_cells = n * n,
           board = replicate n (replicate n empty),
           played_positions = [], played_tokens = [],
           empty_cells = concat (map (\<lambda>i. map (\<lambda>j. (int i, int j)) [0..<n]) [0..<n]) \<rparr>"
    using assms by (auto simp: Board_init_def split: if_splits)
  have ec: "set (empty_cells b) = {(int r, int c) | r c. r < n \<and> c < n}"
    and ac: "set (all_cells b) = {(int r, int c) | r c. r < n \<and> c < n}"
    unfolding b all_cells_def by (simp_all only: Board.simps set_positions)
  have cl: "\<forall>r<n. \<forall>c<n. (board b ! r ! c = empty) = ((int r, int c) \<in> set (empty_cells b))"
    unfolding ec by (auto simp: b)
  have "well_formed b" "distinct (played_positions b)" "distinct (empty_cells b)"
    "set (played_positions b) = {}" "num_rows b = n"
    by (simp_all add: b well_formed_def square_grid_def list_all_iff distinct_positions)
  then show ?thesis
    unfolding strong_invariant_def using cl ec ac by simp
qed


lemma strong_invariant_rectified:
  assumes "square_grid n g"
  shows "strong_invariant (rectified n g)"
proof -
  let ?cells = "grid_cells g n 0"
  define P where "P = played_positions (rectified n g)"
  define E where "E = empty_cells (rectified n g)"
  define A where "A = all_cells (rectified n g)"
  have P: "P = map fst (filter (\<lambda>(p, cell). cell \<noteq> empty) ?cells)"
    and E: "E = map fst (filter (\<lambda>(p, cell). cell = empty) ?cells)"
    and A: "A = concat (map (\<lambda>r. map (\<lambda>c. (int r, int c)) [0..<n]) [0..<n])"
    by (simp_all add: P_def E_def A_def rectified_def all_cells_def)
  have dk: "distinct (map fst ?cells)"
    unfolding map_fst_grid_cells by (rule distinct_positions)
  have Pset: "set P = {(int r, int c) | r c. r < n \<and> c < n \<and> g ! r ! c \<noteq> empty}"
    unfolding P set_map set_filter set_grid_cells by (auto simp: image_iff)
  have Eset: "set E = {(int r, int c) | r c. r < n \<and> c < n \<and> g ! r ! c = empty}"
    unfolding E set_map set_filter set_grid_cells by (auto simp: image_iff)
  have Aset: "set A = {(int r, int c) | r c. r < n \<and> c < n}"
    unfolding A by (rule set_positions)
  have d: "distinct P" "distinct E"
    unfolding P E using dk by (simp_all add: distinct_map_filter)
  have dj: "set P \<inter> set E = {}"
    unfolding Pset Eset by auto
  have un: "set P \<union> set E = set A"
    unfolding Pset Eset Aset by auto
  have cl: "\<forall>r<n. \<forall>c<n. (g ! r ! c = empty) = ((int r, int c) \<in> set E)"
    unfolding Eset by auto
  have wf: "well_formed (rectified n g)" and nr: "num_rows (rectified n g) = n"
    and bd: "board (rectified n g) = g"
    using assms by (simp_all add: well_formed_def rectified_def)
  show ?thesis
    unfolding strong_invariant_def nr bd
    using wf d dj un cl unfolding P_def E_def A_def by blast
qed


lemma strong_invariant_num_cells [simp]:
  "strong_invariant (b \<lparr> num_cells := k \<rparr>) = strong_invariant b"
  by (simp add: strong_invariant_def well_formed_def all_cells_def)

lemma strong_invariant_play:
  assumes inv: "strong_invariant b" and tok: "token \<noteq> empty"
    and play: "Board_play b row col token = (None, b')"
  shows "strong_invariant b'"
proof -
  let ?n = "num_rows b"
  have wf: "well_formed b" and d: "distinct (played_positions b)" "distinct (empty_cells b)"
    and dj: "set (played_positions b) \<inter> set (empty_cells b) = {}"
    and un: "set (played_positions b) \<union> set (empty_cells b) = set (all_cells b)"
    and cl: "\<And>r c. r < ?n \<Longrightarrow> c < ?n \<Longrightarrow>
               (board b ! r ! c = empty) = ((int r, int c) \<in> set (empty_cells b))"
    using inv by (simp_all add: strong_invariant_def)
  have sq: "square_grid ?n (board b)" and nc: "num_cols b = ?n"
    using wf by (simp_all add: well_formed_def)
  have notpp: "(row, col) \<notin> set (played_positions b)"
    using play by (auto simp: Board_play_def split: if_splits)
  have inec: "(row, col) \<in> set (empty_cells b)"
    using play notpp by (auto simp: Board_play_def Let_def split: option.splits if_splits)
  then have "(row, col) \<in> set (all_cells b)"
    using un by blast
  then obtain r c where rc: "row = int r" "col = int c" "r < ?n" "c < ?n"
    unfolding all_cells_def set_positions nc by blast
  have len: "length (board b) = ?n" "length (board b ! r) = ?n"
    using sq rc by (simp_all add: square_grid_length square_grid_nth)
  have b': "b' = b \<lparr> board := (board b)[r := (board b ! r)[c := token]],
                     played_positions := played_positions b @ [(int r, int c)],
                     played_tokens := played_tokens b @ [token],
                     empty_cells := remove1 (int r, int c) (empty_cells b) \<rparr>"
    using play notpp inec rc len by (simp add: Board_play_def Let_def)
  have wf': "well_formed b'"
    using sq nc len unfolding b' well_formed_def square_grid_def
    by (auto simp: list_all_iff dest!: set_update_subset_insert [THEN subsetD])
  have ec': "set (empty_cells b') = set (empty_cells b) - {(int r, int c)}"
    using d(2) by (simp add: b')
  have pp': "set (played_positions b') = insert (int r, int c) (set (played_positions b))"
    by (simp add: b')
  have cells: "board b' ! r' ! c' = (if r' = r \<and> c' = c then token else board b ! r' ! c')"
    if "r' < ?n" "c' < ?n" for r' c'
    using that len rc sq by (auto simp: b' nth_list_update square_grid_nth)
  have cl': "\<forall>r'<num_rows b'. \<forall>c'<num_rows b'.
      (board b' ! r' ! c' = empty) = ((int r', int c') \<in> set (empty_cells b'))"
  proof (intro allI impI)
    fix r' c' assume "r' < num_rows b'" "c' < num_rows b'"
    then have lt: "r' < ?n" "c' < ?n" by (simp_all add: b')
    show "(board b' ! r' ! c' = empty) = ((int r', int c') \<in> set (empty_cells b'))"
      unfolding cells [OF lt] ec' using tok cl [OF lt] by auto
  qed
  have "distinct (played_positions b')" "distinct (empty_cells b')"
    using d notpp rc by (simp_all add: b')
  moreover have "set (played_positions b') \<inter> set (empty_cells b') = {}"
    unfolding pp' ec' using dj by auto
  moreover have "set (played_positions b') \<union> set (empty_cells b') = set (all_cells b')"
  proof -
    have "all_cells b' = all_cells b" by (simp add: b' all_cells_def)
    then show ?thesis unfolding pp' ec' using un inec rc by auto
  qed
  ultimately show ?thesis
    unfolding strong_invariant_def using wf' cl' by blast
qed

lemma strong_invariant_play_moves:
  "strong_invariant b \<Longrightarrow> \<forall>(p, token) \<in> set moves. token \<noteq> empty \<Longrightarrow>
   play_moves b moves = (None, b') \<Longrightarrow> strong_invariant b'"
proof (induction moves arbitrary: b)
  case Nil
  then show ?case by simp
next
  case (Cons m moves)
  obtain row col token where m: "m = ((row, col), token)"
    by (cases m) auto
  obtain e b1 where p: "Board_play b row col token = (e, b1)"
    by (cases "Board_play b row col token") auto
  have e: "e = None"
    using Cons.prems(3) unfolding m by (cases e) (simp_all add: p)
  have "strong_invariant b1"
    using strong_invariant_play [OF Cons.prems(1) _ p [unfolded e]] Cons.prems(2) m by auto
  moreover have "play_moves b1 moves = (None, b')"
    using Cons.prems(3) unfolding m by (simp add: p e)
  ultimately show ?case
    using Cons.IH Cons.prems(2) by auto
qed

lemma strong_invariant_rotate:
  assumes "strong_invariant b" "Board_rotate b degrees = Inr b'"
  shows "strong_invariant b'"
proof -
  have wf: "well_formed b" using assms(1) by (simp add: strong_invariant_def)
  then have sq: "square_grid (num_rows b) (board b)" by (simp add: well_formed_def)
  have "degrees \<in> {90, 180, 270}"
    using assms(2) by (auto simp: Board_rotate_def split: if_splits)
  then consider "degrees = 90" | "degrees = 180" | "degrees = 270" by auto
  then show ?thesis
  proof cases
    case 1 then show ?thesis
      using assms(2) by (auto simp: Board_rotate_90 [OF wf] intro: strong_invariant_rectified)
  next
    case 2 then show ?thesis
      using assms(2) sq
      by (auto simp: Board_rotate_180 [OF wf] intro!: strong_invariant_rectified)
  next
    case 3 then show ?thesis
      using assms(2) by (auto simp: Board_rotate_270 [OF wf] intro!: strong_invariant_rectified)
  qed
qed

lemma strong_invariant_reflect:
  assumes "strong_invariant b" "Board_reflect b axis = Inr b'"
  shows "strong_invariant b'"
proof -
  have wf: "well_formed b" using assms(1) by (simp add: strong_invariant_def)
  then have sq: "square_grid (num_rows b) (board b)" by (simp add: well_formed_def)
  have "lower axis \<in> {''horizontal'', ''h'', ''vertical'', ''v'', ''main diagonal'', ''md'',
                  ''anti-diagonal'', ''ad''}"
    using assms(2) by (auto simp: Board_reflect_def Let_def split: if_splits simp del: insert_iff)
  then consider "lower axis \<in> {''horizontal'', ''h''}" | "lower axis \<in> {''vertical'', ''v''}"
    | "lower axis \<in> {''main diagonal'', ''md''}" | "lower axis \<in> {''anti-diagonal'', ''ad''}"
    by auto
  then show ?thesis
  proof cases
    case 1 then show ?thesis
      using assms(2) sq Board_reflect_eq(1) [OF wf 1]
      by (auto intro!: strong_invariant_rectified)
  next
    case 2 then show ?thesis
      using assms(2) sq Board_reflect_eq(2) [OF wf 2]
      by (auto intro!: strong_invariant_rectified)
  next
    case 3 then show ?thesis
      using assms(2) sq Board_reflect_eq(3) [OF wf 3]
      by (auto intro!: strong_invariant_rectified)
  next
    case 4 then show ?thesis
      using assms(2) sq Board_reflect_eq(4) [OF wf 4]
      by (auto intro!: strong_invariant_rectified)
  qed
qed

text \<open>On board values, where no two boards share a row, the invariant of the data model
  holds of every board reached by successful plays of tokens other than the marker, and
  of what \<^verbatim>\<open>copy\<close>, \<^verbatim>\<open>rotate\<close> and \<^verbatim>\<open>reflect\<close> return for it.\<close>

lemma board_invariant_on_values:
  assumes "Board_init n m = Inr b0" "play_moves b0 moves = (None, b)"
    and "\<forall>(p, token) \<in> set moves. token \<noteq> empty"
  shows "board_invariant b \<and>
         (\<forall>b'. Board_copy b = Inr b' \<longrightarrow> board_invariant b') \<and>
         (\<forall>degrees b'. Board_rotate b degrees = Inr b' \<longrightarrow> board_invariant b') \<and>
         (\<forall>axis b'. Board_reflect b axis = Inr b' \<longrightarrow> board_invariant b')"
proof -
  have inv: "strong_invariant b"
    using strong_invariant_play_moves [OF strong_invariant_init [OF assms(1)] assms(3) assms(2)] .
  then have nc: "num_cols b = num_rows b"
    by (simp add: strong_invariant_def well_formed_def)
  have "board_invariant b'" if "Board_copy b = Inr b'" for b'
    using that inv by (auto simp: Board_copy_well_formed [OF nc] intro!: strong_invariant_board_invariant)
  moreover have "board_invariant b'" if "Board_rotate b degrees = Inr b'" for degrees b'
    using strong_invariant_rotate [OF inv that] by (rule strong_invariant_board_invariant)
  moreover have "board_invariant b'" if "Board_reflect b axis = Inr b'" for axis b'
    using strong_invariant_reflect [OF inv that] by (rule strong_invariant_board_invariant)
  ultimately show ?thesis
    using strong_invariant_board_invariant [OF inv] by blast
qed

subsection \<open>The size of a board never changes\<close>

lemma num_rows_rectify_cells [simp]: "num_rows (rectify_cells xs b) = num_rows b"
  by (induction xs arbitrary: b) (auto split: prod.splits)

lemma num_rows_recitfy [simp]: "num_rows (recitfy_game_history b) = num_rows b"
  by (simp add: recitfy_game_history_def)

lemma and_then_Inr_iff: "(and_then m f = Inr y) = (\<exists>x. m = Inr x \<and> f x = Inr y)"
  by (cases m) (simp_all add: and_then_def)

lemma num_rows_rotate: "Board_rotate b degrees = Inr b' \<Longrightarrow> num_rows b' = num_rows b"
  by (auto simp: Board_rotate_def Board_init_def and_then_Inr_iff split: if_splits)

lemma num_rows_reflect: "Board_reflect b axis = Inr b' \<Longrightarrow> num_rows b' = num_rows b"
  by (auto simp: Board_reflect_def Board_copy_def Board_init_def and_then_Inr_iff Let_def
           split: if_splits simp del: insert_iff)

lemma num_rows_play: "num_rows (snd (Board_play b row col token)) = num_rows b"
  by (simp add: Board_play_def Let_def split: option.splits)

lemma num_rows_play_moves: "play_moves b moves = (e, b') \<Longrightarrow> num_rows b' = num_rows b"
proof (induction moves arbitrary: b)
  case Nil
  then show ?case by simp
next
  case (Cons m moves)
  obtain row col token where m: "m = ((row, col), token)"
    by (cases m) auto
  obtain e1 b1 where p: "Board_play b row col token = (e1, b1)"
    by (cases "Board_play b row col token") auto
  have n: "num_rows b1 = num_rows b"
    using num_rows_play [of b row col token] by (simp add: p)
  show ?case
    using Cons.prems Cons.IH [of b1] n unfolding m
    by (cases e1) (auto simp: p)
qed

subsection \<open>A play on the horizontal reflection of a fresh 2 by 2 board\<close>

lemma play_on_reflection_horizontal:
  "play_on_reflection ''h'' =
     Inr (rectified 2 [['' '', '' ''], ['' '', '' '']],
          (rectified 2 [['' '', '' ''], ['' '', '' '']])
            \<lparr> board := [['' '', '' ''], [''X'', '' '']] \<rparr>,
          rectified 2 [[''X'', '' ''], ['' '', '' '']])"
  by code_simp



subsection \<open>The search on a board with a move already played\<close>

lemma search_2x2_O_built: "full_tree_search board_2x2_O [''X'', ''O''] = Inr search_2x2_O"
  by code_simp

lemma board_2x2_O_fields:
  "empty_cells board_2x2_O = [(0, 1), (1, 0), (1, 1)]"
  "played_positions board_2x2_O = [(0, 0)]"
  by (simp_all add: board_2x2_O_def)

lemma no_permutation_starts_with_played:
  "filter (\<lambda>perm. take (length (played_positions board_2x2_O)) perm = played_positions board_2x2_O)
     (move_permuations search_2x2_O) = []"
  by (simp add: board_2x2_O_fields search_2x2_O_def)

lemma get_move_no_surviving_permutation:
  "get_move search_2x2_O rnd board_2x2_O token
     = Inl (ValueError ''Sample larger than population or is negative'')"
  unfolding get_move_def Let_def no_permutation_starts_with_played
  by (simp add: board_2x2_O_fields sample1_def)

lemma search_2x2_fresh_built:
  "full_tree_search (rectified 2 [['' '', '' ''], ['' '', '' '']]) [''O'', ''X'']
     = Inr search_2x2_fresh"
  by code_simp


subsection \<open>The outcome table and the scores\<close>

lemma length_perms_of:
  "p \<in> set (perms_of n xs) \<Longrightarrow> length xs = n \<Longrightarrow> length p = n"
proof (induction n arbitrary: xs p)
  case 0
  then show ?case by simp
next
  case (Suc n)
  from Suc.prems(1) obtain i q where i: "i < length xs"
    and q: "q \<in> set (perms_of n (take i xs @ drop (Suc i) xs))" and p: "p = xs ! i # q"
    by auto
  have "length (take i xs @ drop (Suc i) xs) = n"
    using i Suc.prems(2) by simp
  then show ?case
    using Suc.IH [OF q] p by simp
qed

lemma length_permutations: "p \<in> set (permutations xs) \<Longrightarrow> length p = length xs"
  unfolding permutations_def by (rule length_perms_of) simp_all

lemma build_winners_keys:
  "build_winners b0 toks perms acc = Inr ws \<Longrightarrow> distinct (map fst acc) \<Longrightarrow>
   distinct (map fst ws) \<and> fst ` set ws = fst ` set acc \<union> set perms"
proof (induction perms arbitrary: acc)
  case Nil
  then show ?case by simp
next
  case (Cons perm rest)
  from Cons.prems(1) obtain outcome where
    r: "build_winners b0 toks rest (AList.update perm outcome acc) = Inr ws"
    by (auto simp: and_then_def split: sum.splits)
  have "distinct (map fst (AList.update perm outcome acc))"
    using Cons.prems(2) by (rule distinct_update)
  from Cons.IH [OF r this] show ?case
    by (auto simp: dom_update)
qed

lemma full_tree_search_table:
  assumes "full_tree_search board0 tokens = Inr st"
  shows "distinct (map fst (winners st))"
    and "fst ` set (winners st) = set (move_permuations st)"
    and "\<And>p. p \<in> set (move_permuations st) \<Longrightarrow> length p = length (empty_cells board0)"
proof -
  from assms obtain ws where
    b: "build_winners board0 tokens (permutations (empty_cells board0)) [] = Inr ws"
    and st: "st = \<lparr> move_permuations = permutations (empty_cells board0), winners = ws \<rparr>"
    by (auto simp: full_tree_search_def Let_def and_then_def split: sum.splits)
  from build_winners_keys [OF b] show "distinct (map fst (winners st))"
    and "fst ` set (winners st) = set (move_permuations st)"
    by (simp_all add: st)
  show "\<And>p. p \<in> set (move_permuations st) \<Longrightarrow> length p = length (empty_cells board0)"
    by (simp add: st length_permutations)
qed

lemma subset_dict_result:
  assumes "distinct (map fst ws)"
  shows "set ps \<subseteq> fst ` set ws \<Longrightarrow> distinct (map fst acc) \<Longrightarrow>
    \<exists>d. subset_dict ws ps acc = Inr d \<and> distinct (map fst d) \<and>
        map_of d = (\<lambda>p. if p \<in> set ps then map_of ws p else map_of acc p)"
proof (induction ps arbitrary: acc)
  case Nil
  then show ?case by simp
next
  case (Cons perm rest)
  from Cons.prems(1) obtain w where w: "map_of ws perm = Some w"
    using assms by (auto simp: image_iff)
  have d: "distinct (map fst (AList.update perm w acc))"
    using Cons.prems(2) by (rule distinct_update)
  from Cons.prems(1) have "set rest \<subseteq> fst ` set ws" by simp
  from Cons.IH [OF this d] obtain dd where
    dd: "subset_dict ws rest (AList.update perm w acc) = Inr dd" "distinct (map fst dd)"
      "map_of dd = (\<lambda>p. if p \<in> set rest then map_of ws p
                        else map_of (AList.update perm w acc) p)"
    by blast
  have "map_of dd = (\<lambda>p. if p \<in> set (perm # rest) then map_of ws p else map_of acc p)"
    unfolding dd(3) by (auto simp: update_conv' w fun_eq_iff)
  then show ?case
    using dd(1,2) w by simp
qed


lemma collect_next_moves_result:
  assumes "\<forall>(p, w) \<in> set D. k < length p"
  shows "distinct (map fst acc) \<Longrightarrow>
    \<exists>N. collect_next_moves token k D acc = Inr N \<and> distinct (map fst N) \<and>
        (\<forall>m. map_of N m =
           (case map_of acc m of
              None \<Rightarrow> (if filter (\<lambda>(p, w). p ! k = m) D = [] then None
                        else Some (map (\<lambda>(p, w). outcome_value token w)
                                     (filter (\<lambda>(p, w). p ! k = m) D)))
            | Some old \<Rightarrow> Some (old @ map (\<lambda>(p, w). outcome_value token w)
                                        (filter (\<lambda>(p, w). p ! k = m) D))))"
  using assms
proof (induction D arbitrary: acc)
  case Nil
  then show ?case by (auto split: option.splits)
next
  case (Cons pw rest)
  obtain perm winner where pw: "pw = (perm, winner)" by (cases pw) auto
  let ?mv = "perm ! k"
  let ?old = "case map_of acc ?mv of None \<Rightarrow> [] | Some vs \<Rightarrow> vs"
  let ?acc = "AList.update ?mv (?old @ [outcome_value token winner]) acc"
  have k: "k < length perm" using Cons.prems(2) pw by simp
  have g: "getitem perm (int k) = Inr ?mv" using k by (simp add: getitem_nat)
  have d: "distinct (map fst ?acc)" using Cons.prems(1) by (rule distinct_update)
  have r: "\<forall>(p, w) \<in> set rest. k < length p" using Cons.prems(2) by simp
  from Cons.IH [OF d r] obtain N where
    N: "collect_next_moves token k rest ?acc = Inr N" "distinct (map fst N)"
    and m: "\<And>m. map_of N m =
           (case map_of ?acc m of
              None \<Rightarrow> (if filter (\<lambda>(p, w). p ! k = m) rest = [] then None
                        else Some (map (\<lambda>(p, w). outcome_value token w)
                                     (filter (\<lambda>(p, w). p ! k = m) rest)))
            | Some old \<Rightarrow> Some (old @ map (\<lambda>(p, w). outcome_value token w)
                                        (filter (\<lambda>(p, w). p ! k = m) rest)))"
    by blast
  have "collect_next_moves token k (pw # rest) acc = Inr N"
    unfolding pw using N(1) g by simp
  moreover have "map_of N m =
           (case map_of acc m of
              None \<Rightarrow> (if filter (\<lambda>(p, w). p ! k = m) (pw # rest) = [] then None
                        else Some (map (\<lambda>(p, w). outcome_value token w)
                                     (filter (\<lambda>(p, w). p ! k = m) (pw # rest))))
            | Some old \<Rightarrow> Some (old @ map (\<lambda>(p, w). outcome_value token w)
                                        (filter (\<lambda>(p, w). p ! k = m) (pw # rest))))" for m
    unfolding m pw by (cases "m = ?mv") (auto simp: update_conv' split: option.splits)
  ultimately show ?case using N(2) by blast
qed

lemma map_result_mean:
  "\<forall>(m, vs) \<in> set N. vs \<noteq> [] \<Longrightarrow>
   map_result (\<lambda>(move, value). and_then (mean value) (\<lambda>m. Inr (move, m))) N
     = Inr (map (\<lambda>(move, value). (move, of_int (sum_list value) / of_nat (length value))) N)"
  by (rule map_result_Inr) (auto simp: mean_def)

lemma sum_length_same_set:
  assumes "distinct xs" "distinct ys" "set xs = set ys"
  shows "sum_list (map f xs) = (sum_list (map f ys) :: int)" "length xs = length ys"
proof -
  show "sum_list (map f xs) = (sum_list (map f ys) :: int)"
    using assms by (simp add: sum_list_distinct_conv_sum_set)
  show "length xs = length ys"
    using assms by (metis distinct_card)
qed


section \<open>Facts about the game tree\<close>

subsection \<open>Nodes and their children\<close>

lemma Node_eq_refl [simp]: "Node_eq n n"
  by (simp add: Node_eq_def Board_eq_def)

lemma Node_eq_sym: "Node_eq a b \<Longrightarrow> Node_eq b a"
  by (simp add: Node_eq_def Board_eq_def)

lemma Node_eq_trans: "Node_eq a b \<Longrightarrow> Node_eq b c \<Longrightarrow> Node_eq a c"
  by (simp add: Node_eq_def Board_eq_def)

lemma in_visited_iff: "in_visited V n = (\<exists>v \<in> set V. Node_eq v n)"
  by (simp add: in_visited_def list_ex_iff)

lemma in_visited_append [simp]: "in_visited (V @ W) n = (in_visited V n \<or> in_visited W n)"
  by (auto simp: in_visited_iff)

lemma in_visited_Nil [simp]: "\<not> in_visited [] n"
  by (simp add: in_visited_iff)

lemma in_visited_single [simp]: "in_visited [v] n = Node_eq v n"
  by (simp add: in_visited_iff)

lemma in_visited_cong_eq: "Node_eq a b \<Longrightarrow> in_visited V a = in_visited V b"
  unfolding in_visited_iff by (meson Node_eq_sym Node_eq_trans)

lemma rotate1_drop_take: "drop 1 xs @ take 1 xs = rotate1 xs"
  by (cases xs) simp_all

lemma made_node_sel [simp]:
  "node_board (made_node b toks mv parent played) = b"
  "node_tokens (made_node b toks mv parent played) = toks"
  "node_move (made_node b toks mv parent played) = mv"
  "node_parent (made_node b toks mv parent played) = parent"
  "token_played (made_node b toks mv parent played) = played"
  "node_winner (made_node b toks mv parent played) = winner_field b"
  "next_moves (made_node b toks mv parent played)
     = (if winner_field b = None then Some (empty_cells b) else None)"
  by (simp_all add: made_node_def)

lemma strong_invariant_fields:
  assumes "strong_invariant b"
  shows "well_formed b" "distinct (played_positions b)" "distinct (empty_cells b)"
    "set (played_positions b) \<inter> set (empty_cells b) = {}"
    "set (played_positions b) \<union> set (empty_cells b) = set (all_cells b)"
    "\<And>r c. r < num_rows b \<Longrightarrow> c < num_rows b \<Longrightarrow>
       (board b ! r ! c = empty) = ((int r, int c) \<in> set (empty_cells b))"
  using assms by (simp_all add: strong_invariant_def)

lemma empty_cell_in_range:
  assumes "strong_invariant b" "mv \<in> set (empty_cells b)"
  obtains r c where "mv = (int r, int c)" "r < num_rows b" "c < num_rows b"
proof -
  have "mv \<in> set (all_cells b)"
    using strong_invariant_fields(5) [OF assms(1)] assms(2) by blast
  moreover have "num_cols b = num_rows b"
    using strong_invariant_fields(1) [OF assms(1)] by (simp add: well_formed_def)
  ultimately show ?thesis
    using that unfolding all_cells_def set_positions by auto
qed

text \<open>copy, then play a move that is in empty_cells\<close>

lemma copy_play:
  assumes inv: "strong_invariant b" and mv: "mv \<in> set (empty_cells b)"
  shows "Board_copy b = Inr (b \<lparr> num_cells := num_rows b * num_rows b \<rparr>)"
    and "Board_play (b \<lparr> num_cells := num_rows b * num_rows b \<rparr>) (fst mv) (snd mv) t
           = (None, played_board b mv t)"
proof -
  have wf: "well_formed b" by (rule strong_invariant_fields(1) [OF inv])
  then have nc: "num_cols b = num_rows b" and sq: "square_grid (num_rows b) (board b)"
    by (simp_all add: well_formed_def)
  show "Board_copy b = Inr (b \<lparr> num_cells := num_rows b * num_rows b \<rparr>)"
    by (rule Board_copy_well_formed [OF nc])
  obtain r c where rc: "mv = (int r, int c)" "r < num_rows b" "c < num_rows b"
    using empty_cell_in_range [OF inv mv] by blast
  have notpp: "mv \<notin> set (played_positions b)"
    using strong_invariant_fields(4) [OF inv] mv by blast
  have len: "length (board b) = num_rows b" "length (board b ! r) = num_rows b"
    using sq rc by (simp_all add: square_grid_length square_grid_nth)
  show "Board_play (b \<lparr> num_cells := num_rows b * num_rows b \<rparr>) (fst mv) (snd mv) t
           = (None, played_board b mv t)"
    using notpp mv rc len by (simp add: Board_play_def Let_def played_board_def)
qed

lemma strong_invariant_played_board:
  assumes inv: "strong_invariant b" and mv: "mv \<in> set (empty_cells b)" and t: "t \<noteq> empty"
  shows "strong_invariant (played_board b mv t)"
proof -
  have "strong_invariant (b \<lparr> num_cells := num_rows b * num_rows b \<rparr>)"
    using inv by simp
  from strong_invariant_play [OF this t copy_play(2) [OF inv mv]]
  show ?thesis .
qed

lemma getitem_zero: "xs \<noteq> [] \<Longrightarrow> getitem xs 0 = Inr (hd xs)"
  using getitem_nat [of 0 xs] by (simp add: hd_conv_nth)

lemma game_node_fields:
  assumes "game_node rt n"
  shows "strong_invariant (node_board n)"
    and "n = made_node (node_board n) (node_tokens n) (node_move n) (node_parent n) (token_played n)"
    and "node_tokens n \<noteq> []" and "empty \<notin> set (node_tokens n)"
    and "num_rows (node_board n) = num_rows (node_board rt)"
    and "num_cells (node_board n) = num_rows (node_board n) * num_rows (node_board n)"
    and "empty_cells (node_board n) =
        filter (\<lambda>(r, c). board (node_board n) ! nat r ! nat c = empty)
          (empty_cells (node_board rt))"
    and "node_tokens n =
        rotate (rank rt - rank n - (if node_move rt = None then 1 else 0)) (node_tokens rt)"
    and "node_parent rt = None"
    and "n = rt \<or> (node_move n \<noteq> None \<and> node_parent n \<noteq> None \<and> rank n < rank rt \<and>
        token_played n = Some (hd (node_tokens n)))"
    and "strong_invariant (node_board rt)"
  using assms unfolding game_node_def by blast+

lemma tokens_rotate_valid:
  assumes "game_node rt n"
  shows "tokens_rotate n \<noteq> []" "empty \<notin> set (tokens_rotate n)" "hd (tokens_rotate n) \<noteq> empty"
proof -
  show a: "tokens_rotate n \<noteq> []" and b: "empty \<notin> set (tokens_rotate n)"
    using game_node_fields(3,4) [OF assms] by (auto simp: tokens_rotate_def)
  show "hd (tokens_rotate n) \<noteq> empty"
    using a b by (metis hd_in_set)
qed

lemma node_winner_field: "game_node rt n \<Longrightarrow> node_winner n = winner_field (node_board n)"
  using game_node_fields(2) [of rt n] made_node_sel(6) by metis

lemma next_moves_field:
  "game_node rt n \<Longrightarrow>
   next_moves n = (if winner_field (node_board n) = None then Some (empty_cells (node_board n))
                   else None)"
  using game_node_fields(2) [of rt n] made_node_sel(7) by metis

lemma Node_init_child:
  assumes g: "game_node rt n" and mv: "mv \<in> set (empty_cells (node_board n))"
  shows "Node_init (node_board n) (tokens_rotate n) (Some mv) (Some n) = Inr (child_node n mv)"
proof -
  let ?b = "node_board n" and ?t = "hd (tokens_rotate n)"
  let ?b1 = "played_board ?b mv ?t"
  note inv = game_node_fields(1) [OF g]
  have inv1: "strong_invariant ?b1"
    by (rule strong_invariant_played_board [OF inv mv tokens_rotate_valid(3) [OF g]])
  have wf1: "well_formed ?b1" by (rule strong_invariant_fields(1) [OF inv1])
  obtain r c where rc: "mv = (int r, int c)" "r < num_rows ?b" "c < num_rows ?b"
    using empty_cell_in_range [OF inv mv] by blast
  then have pos: "0 < num_rows ?b1" by (simp add: played_board_def)
  have w: "Board_winner ?b1 = Inr (first_winning_token ?b1)"
    by (rule Board_winner_first_line [OF wf1 pos])
  show ?thesis
    unfolding Node_init_def copy_play(1) [OF inv mv]
    by (simp add: getitem_zero [OF tokens_rotate_valid(1) [OF g]] copy_play(2) [OF inv mv] w
        Let_def child_node_def made_node_def winner_field_def)
qed

lemma rank_child: 
  assumes "mv \<in> set (empty_cells (node_board n))"
  shows "rank (child_node n mv) = rank n - 1" "0 < rank n"
  using assms by (auto simp: rank_def child_node_def played_board_def length_remove1 length_pos_if_in_set)

lemma rank_le_root: "game_node rt n \<Longrightarrow> rank n \<le> rank rt"
  using game_node_fields(7) [of rt n] unfolding rank_def
  by (metis length_filter_le)

lemma game_node_child:
  assumes g: "game_node rt n" and mv: "mv \<in> set (empty_cells (node_board n))"
  shows "game_node rt (child_node n mv)"
proof -
  let ?b = "node_board n" and ?t = "hd (tokens_rotate n)"
  let ?b1 = "played_board ?b mv ?t"
  let ?c = "child_node n mv"
  note inv = game_node_fields(1) [OF g]
  have nb: "node_board ?c = ?b1" by (simp add: child_node_def)
  have inv1: "strong_invariant ?b1"
    by (rule strong_invariant_played_board [OF inv mv tokens_rotate_valid(3) [OF g]])
  obtain r c where rc: "mv = (int r, int c)" "r < num_rows ?b" "c < num_rows ?b"
    using empty_cell_in_range [OF inv mv] by blast
  have sq: "square_grid (num_rows ?b) (board ?b)"
    using strong_invariant_fields(1) [OF inv] by (simp add: well_formed_def)
  have len: "length (board ?b) = num_rows ?b" "\<And>i. i < num_rows ?b \<Longrightarrow> length (board ?b ! i) = num_rows ?b"
    using sq by (simp_all add: square_grid_length square_grid_nth)
  \<comment> \<open>empty cells\<close>
  note inv0 = game_node_fields(11) [OF g]
  have ec: "empty_cells ?b1 =
        filter (\<lambda>(r, c). board ?b1 ! nat r ! nat c = empty) (empty_cells (node_board rt))"
  proof -
    have "empty_cells ?b1 = filter (\<lambda>p. p \<noteq> mv) (empty_cells ?b)"
      using strong_invariant_fields(3) [OF inv]
      by (auto simp: played_board_def distinct_remove1_removeAll removeAll_filter_not_eq
          intro: filter_cong)
    also have "\<dots> = filter (\<lambda>p. p \<noteq> mv)
        (filter (\<lambda>(r, c). board ?b ! nat r ! nat c = empty) (empty_cells (node_board rt)))"
      using game_node_fields(7) [OF g] by simp
    also have "\<dots> = filter (\<lambda>(r, c). board ?b1 ! nat r ! nat c = empty) (empty_cells (node_board rt))"
      unfolding filter_filter
    proof (rule filter_cong [OF refl])
      fix p assume "p \<in> set (empty_cells (node_board rt))"
      then obtain r' c' where p: "p = (int r', int c')" "r' < num_rows (node_board rt)"
          "c' < num_rows (node_board rt)"
        using empty_cell_in_range [OF inv0] by blast
      then have lt: "r' < num_rows ?b" "c' < num_rows ?b"
        using game_node_fields(5) [OF g] by simp_all
      have "board ?b1 ! r' ! c' = (if r' = r \<and> c' = c then ?t else board ?b ! r' ! c')"
        using lt rc len by (auto simp: played_board_def nth_list_update)
      then show "((case p of (r, c) \<Rightarrow> board ?b ! nat r ! nat c = empty) \<and> p \<noteq> mv)
          = (case p of (r, c) \<Rightarrow> board ?b1 ! nat r ! nat c = empty)"
        using p rc tokens_rotate_valid(3) [OF g] by auto
    qed
    finally show ?thesis .
  qed
  \<comment> \<open>tokens\<close>
  have rk: "rank ?c = rank n - 1" "0 < rank n" by (rule rank_child [OF mv])+
  have le: "rank n \<le> rank rt" by (rule rank_le_root [OF g])
  have toks: "tokens_rotate n =
      rotate (rank rt - rank ?c - (if node_move rt = None then 1 else 0)) (node_tokens rt)"
  proof (cases "n = rt")
    case True
    have "rank rt - (rank rt - 1) = 1" using rk(2) True by simp
    then show ?thesis
      using True game_node_fields(9) [OF g] rk by (simp add: tokens_rotate_def)
  next
    case False
    then have nr: "node_parent n \<noteq> None" "rank n < rank rt"
      using game_node_fields(10) [OF g] by auto
    define d where "d = rank rt - rank n - (if node_move rt = None then 1 else 0)"
    have tn: "node_tokens n = rotate d (node_tokens rt)"
      unfolding d_def by (rule game_node_fields(8) [OF g])
    have "tokens_rotate n = rotate1 (node_tokens n)"
      using nr(1) by (auto simp: tokens_rotate_def)
    then have "tokens_rotate n = rotate (Suc d) (node_tokens rt)"
      unfolding tn by simp
    moreover have "Suc d = rank rt - rank ?c - (if node_move rt = None then 1 else 0)"
      unfolding d_def rk(1) using nr(2) rk(2) by auto
    ultimately show ?thesis by simp
  qed
  have lt: "rank ?c < rank rt" using rk le by simp
  have sel: "node_tokens ?c = tokens_rotate n" "node_move ?c = Some mv"
    "node_parent ?c = Some n" "token_played ?c = Some (hd (tokens_rotate n))"
    by (simp_all add: child_node_def)
  have made: "?c = made_node (node_board ?c) (node_tokens ?c) (node_move ?c) (node_parent ?c)
      (token_played ?c)"
    unfolding nb sel by (simp add: child_node_def)
  have nr: "num_rows ?b1 = num_rows (node_board rt)" "num_cells ?b1 = num_rows ?b1 * num_rows ?b1"
    using game_node_fields(5) [OF g] by (simp_all add: played_board_def)
  show ?thesis
    unfolding game_node_def
    apply (intro conjI)
    subgoal unfolding nb by (rule inv1)
    subgoal by (rule made)
    subgoal unfolding sel by (rule tokens_rotate_valid(1) [OF g])
    subgoal unfolding sel by (rule tokens_rotate_valid(2) [OF g])
    subgoal unfolding nb by (rule nr(1))
    subgoal unfolding nb by (rule nr(2))
    subgoal unfolding nb by (rule ec)
    subgoal unfolding sel by (rule toks)
    subgoal by (rule game_node_fields(9) [OF g])
    subgoal by (rule inv0)
    subgoal using lt unfolding sel by simp
    done
qed

lemma Node_isomorphic_to_eq:
  "well_formed (node_board other) \<Longrightarrow> Node_isomorphic_to c other = Inr (same_class c other)"
  by (simp add: Node_isomorphic_to_def isomorphic_to_well_formed same_class_def)

lemma all_not_isomorphic_eq:
  "(\<And>k. k \<in> set others \<Longrightarrow> well_formed (node_board k)) \<Longrightarrow>
   all_not_isomorphic c others = Inr (\<not> list_ex (same_class c) others)"
  by (induction others) (simp_all add: Node_isomorphic_to_eq)

lemma game_node_well_formed: "game_node rt n \<Longrightarrow> well_formed (node_board n)"
  using game_node_fields(1) strong_invariant_fields(1) by blast

lemma children_loop_eq:
  assumes g: "game_node rt n"
  shows "set moves \<subseteq> set (empty_cells (node_board n)) \<Longrightarrow>
    (\<And>k. k \<in> set kept \<Longrightarrow> well_formed (node_board k)) \<Longrightarrow>
    children_loop n (tokens_rotate n) moves kept = Inr (prune (map (child_node n) moves) kept)"
proof (induction moves arbitrary: kept)
  case Nil
  then show ?case by simp
next
  case (Cons mv rest)
  have mv: "mv \<in> set (empty_cells (node_board n))" using Cons.prems(1) by simp
  have rest: "set rest \<subseteq> set (empty_cells (node_board n))" using Cons.prems(1) by simp
  have wfc: "well_formed (node_board (child_node n mv))"
    by (rule game_node_well_formed [OF game_node_child [OF g mv]])
  have wf': "\<And>k. k \<in> set (kept @ [child_node n mv]) \<Longrightarrow> well_formed (node_board k)"
    using Cons.prems(2) wfc by auto
  have step1: "children_loop n (tokens_rotate n) rest (kept @ [child_node n mv])
      = Inr (prune (map (child_node n) rest) (kept @ [child_node n mv]))"
    by (rule Cons.IH [OF rest wf'])
  have step2: "children_loop n (tokens_rotate n) rest kept
      = Inr (prune (map (child_node n) rest) kept)"
    by (rule Cons.IH [OF rest Cons.prems(2)])
  show ?case
  proof (cases "kept = []")
    case True
    then show ?thesis
      using step1 by (simp add: Node_init_child [OF g mv])
  next
    case False
    then show ?thesis
      using step1 step2
      by (simp add: Node_init_child [OF g mv] all_not_isomorphic_eq [OF Cons.prems(2)])
  qed
qed

lemma children_eq:
  assumes g: "game_node rt n"
  shows "children n =
    (if winner_field (node_board n) \<noteq> None then Inr None
     else Inr (Some (prune (map (child_node n) (empty_cells (node_board n))) [])))"
proof -
  have tr: "(if node_parent n = None \<and> node_move n = None then node_tokens n
             else drop 1 (node_tokens n) @ take 1 (node_tokens n)) = tokens_rotate n"
    by (cases "node_tokens n") (simp_all add: tokens_rotate_def)
  have cl: "children_loop n (tokens_rotate n) (empty_cells (node_board n)) []
      = Inr (prune (map (child_node n) (empty_cells (node_board n))) [])"
    by (rule children_loop_eq [OF g]) simp_all
  show ?thesis
    unfolding children_def tr Let_def node_winner_field [OF g] next_moves_field [OF g]
    by (simp add: cl)
qed

lemma children_list_eq:
  assumes g: "game_node rt n"
  shows "children_list n =
    (if winner_field (node_board n) \<noteq> None then []
     else prune (map (child_node n) (empty_cells (node_board n))) [])"
  unfolding children_list_def children_eq [OF g] by simp

lemma set_prune: "set (prune cs kept) \<subseteq> set cs \<union> set kept"
proof (induction cs arbitrary: kept)
  case Nil
  then show ?case by simp
next
  case (Cons c cs)
  show ?case
    using Cons.IH [of kept] Cons.IH [of "kept @ [c]"] by auto
qed

lemma children_list_child:
  assumes g: "game_node rt n" and c: "c \<in> set (children_list n)"
  obtains mv where "mv \<in> set (empty_cells (node_board n))" "c = child_node n mv"
proof -
  have "c \<in> set (map (child_node n) (empty_cells (node_board n)))"
    using c set_prune [of "map (child_node n) (empty_cells (node_board n))" "[]"]
    unfolding children_list_eq [OF g] by (auto split: if_splits)
  then show ?thesis using that by auto
qed

lemma children_list_game:
  assumes g: "game_node rt n" and c: "c \<in> set (children_list n)"
  shows "game_node rt c" "node_parent c = Some n" "rank c < rank n"
proof -
  obtain mv where mv: "mv \<in> set (empty_cells (node_board n))" "c = child_node n mv"
    using children_list_child [OF g c] by blast
  show "game_node rt c" unfolding mv(2) by (rule game_node_child [OF g mv(1)])
  show "node_parent c = Some n" unfolding mv(2) by (simp add: child_node_def)
  show "rank c < rank n" unfolding mv(2) using rank_child [OF mv(1)] by simp
qed

lemma get_unvisited_children:
  assumes g: "game_node rt n"
  shows "\<exists>ch. children n = Inr ch \<and> get_unvisited_items V ch = unvisited V n"
proof (cases "winner_field (node_board n) \<noteq> None")
  case True
  then show ?thesis
    by (simp add: children_eq [OF g] children_list_eq [OF g] get_unvisited_items_def unvisited_def)
next
  case False
  then show ?thesis
    by (auto simp: children_eq [OF g] children_list_eq [OF g] get_unvisited_items_def
        unvisited_def Let_def)
qed

lemma Node_eq_empty_cells:
  assumes "game_node rt a" "game_node rt b" "Node_eq a b"
  shows "empty_cells (node_board a) = empty_cells (node_board b)"
proof -
  have "board (node_board a) = board (node_board b)"
    using assms(3) by (simp add: Node_eq_def Board_eq_def)
  then show ?thesis
    using game_node_fields(7) [OF assms(1)] game_node_fields(7) [OF assms(2)] by simp
qed

lemma Node_eq_rank:
  "game_node rt a \<Longrightarrow> game_node rt b \<Longrightarrow> Node_eq a b \<Longrightarrow> rank a = rank b"
  using Node_eq_empty_cells [of rt a b] by (simp add: rank_def)

lemma child_not_eq_parent:
  assumes "game_node rt n" "c \<in> set (children_list n)"
  shows "\<not> Node_eq c n"
  using Node_eq_rank [OF children_list_game(1) [OF assms] assms(1)]
    children_list_game(3) [OF assms] by auto

lemma winner_field_cong:
  "board b = board b' \<Longrightarrow> num_rows b = num_rows b' \<Longrightarrow> empty_cells b = empty_cells b' \<Longrightarrow>
   winner_field b = winner_field b'"
  by (simp add: winner_field_def first_winning_token_def lines_in_order_def full_def)

lemma same_class_cong:
  assumes "Node_eq c c'" "Node_eq k k'" "num_rows (node_board k) = num_rows (node_board k')"
  shows "same_class c k = same_class c' k'"
  using assms by (simp add: same_class_def Node_eq_def Board_eq_def)

lemma list_ex_same_class_cong:
  assumes "list_all2 Node_eq kept kept'" "Node_eq c c'"
    and "\<And>x. x \<in> set kept \<union> set kept' \<Longrightarrow> num_rows (node_board x) = N"
  shows "list_ex (same_class c) kept = list_ex (same_class c') kept'"
  using assms(1,3)
proof (induction kept kept' rule: list_all2_induct)
  case Nil
  then show ?case by simp
next
  case (Cons k ks k' ks')
  have "same_class c k = same_class c' k'"
    using same_class_cong [OF assms(2) Cons.hyps(1)] Cons.prems by simp
  moreover have "list_ex (same_class c) ks = list_ex (same_class c') ks'"
    using Cons.IH Cons.prems by simp
  ultimately show ?case by simp
qed

lemma prune_rel:
  assumes "list_all2 Node_eq cs cs'"
  shows "list_all2 Node_eq kept kept' \<Longrightarrow>
    (\<And>x. x \<in> set cs \<union> set cs' \<union> set kept \<union> set kept' \<Longrightarrow> num_rows (node_board x) = N) \<Longrightarrow>
    list_all2 Node_eq (prune cs kept) (prune cs' kept')"
  using assms
proof (induction cs cs' arbitrary: kept kept' rule: list_all2_induct)
  case Nil
  then show ?case by simp
next
  case (Cons c cs c' cs')
  have ex: "list_ex (same_class c) kept = list_ex (same_class c') kept'"
    by (rule list_ex_same_class_cong [OF Cons.prems(1) Cons.hyps(1), of N]) (use Cons.prems(2) in auto)
  show ?case
  proof (cases "list_ex (same_class c) kept")
    case True
    then show ?thesis
      using ex Cons.IH [OF Cons.prems(1)] Cons.prems(2) by simp
  next
    case False
    have "list_all2 Node_eq (kept @ [c]) (kept' @ [c'])"
      using Cons.prems(1) Cons.hyps(1) by (simp add: list_all2_appendI)
    from Cons.IH [OF this] show ?thesis
      using ex False Cons.prems(2) by simp
  qed
qed

lemma tokens_rotate_eq:
  assumes a: "game_node rt a" and b: "game_node rt b" and e: "Node_eq a b"
  shows "tokens_rotate a = tokens_rotate b"
proof -
  have rk: "rank a = rank b" by (rule Node_eq_rank [OF a b e])
  have toks: "node_tokens a = node_tokens b"
    using game_node_fields(8) [OF a] game_node_fields(8) [OF b] rk by simp
  have mv: "node_move a = node_move b" using e by (simp add: Node_eq_def)
  show ?thesis
  proof (cases "node_move a = None")
    case True
    then have "a = rt" "b = rt"
      using game_node_fields(10) [OF a] game_node_fields(10) [OF b] mv by auto
    then show ?thesis by simp
  next
    case False
    then show ?thesis using mv toks by (auto simp: tokens_rotate_def)
  qed
qed

lemma children_bisim:
  assumes a: "game_node rt a" and b: "game_node rt b" and e: "Node_eq a b"
  shows "list_all2 Node_eq (children_list a) (children_list b)"
proof -
  have grid: "board (node_board a) = board (node_board b)"
    using e by (simp add: Node_eq_def Board_eq_def)
  have ec: "empty_cells (node_board a) = empty_cells (node_board b)"
    by (rule Node_eq_empty_cells [OF a b e])
  have nr: "num_rows (node_board a) = num_rows (node_board b)"
    using game_node_fields(5) [OF a] game_node_fields(5) [OF b] by simp
  have w: "winner_field (node_board a) = winner_field (node_board b)"
    by (rule winner_field_cong [OF grid nr ec])
  have tr: "tokens_rotate a = tokens_rotate b" by (rule tokens_rotate_eq [OF a b e])
  let ?A = "map (child_node a) (empty_cells (node_board a))"
  let ?B = "map (child_node b) (empty_cells (node_board b))"
  have "Node_eq (child_node a mv) (child_node b mv)" for mv
    by (simp add: Node_eq_def Board_eq_def child_node_def played_board_def tr grid)
  then have rel: "list_all2 Node_eq ?A ?B"
    unfolding ec by (simp add: list_all2_conv_all_nth)
  have "list_all2 Node_eq (prune ?A []) (prune ?B [])"
  proof (rule prune_rel [OF rel, of "[]" "[]" "num_rows (node_board rt)"])
    show "list_all2 Node_eq [] []" by simp
    fix x assume "x \<in> set ?A \<union> set ?B \<union> set [] \<union> set []"
    then consider mv where "mv \<in> set (empty_cells (node_board a))" "x = child_node a mv"
      | mv where "mv \<in> set (empty_cells (node_board b))" "x = child_node b mv"
      by auto
    then show "num_rows (node_board x) = num_rows (node_board rt)"
    proof cases
      case 1
      then show ?thesis using game_node_fields(5) [OF game_node_child [OF a 1(1)]] by simp
    next
      case 2
      then show ?thesis using game_node_fields(5) [OF game_node_child [OF b 2(1)]] by simp
    qed
  qed
  then show ?thesis
    unfolding children_list_eq [OF a] children_list_eq [OF b] w by simp
qed


section \<open>The iterator on the nodes of a game tree\<close>

subsection \<open>The loop that climbs to an ancestor with unvisited children\<close>

lemma ascend_unfold:
  "ascend V n =
     (case children n of
        Inl e \<Rightarrow> Inl e
      | Inr ch \<Rightarrow>
          if get_unvisited_items V ch = None
          then (case node_parent n of None \<Rightarrow> Inr n | Some p \<Rightarrow> ascend V p)
          else Inr n)"
  by (cases n) (auto simp: Let_def split: sum.splits)

lemma ascend_game:
  assumes "game_node rt n"
  shows "ascend V n =
     (if unvisited V n = None
      then (case node_parent n of None \<Rightarrow> Inr n | Some p \<Rightarrow> ascend V p)
      else Inr n)"
proof -
  obtain ch where "children n = Inr ch" "get_unvisited_items V ch = unvisited V n"
    using get_unvisited_children [OF assms] by blast
  then show ?thesis by (subst ascend_unfold) simp
qed

lemma up_chain_game: "up_chain rt V c x \<Longrightarrow> game_node rt x"
  by (induction rule: up_chain.induct) auto

lemma up_chain_visited: "up_chain rt V c x \<Longrightarrow> in_visited V x \<and> unvisited V x = None"
  by (induction rule: up_chain.induct) auto

lemma ascend_to_parent:
  assumes "up_chain rt V c x" "node_parent c = Some p" "game_node rt p" "unvisited V p \<noteq> None"
  shows "ascend V x = Inr p"
  using assms
proof (induction rule: up_chain.induct)
  case base
  then show ?case
    by (auto simp: ascend_game [of rt c] ascend_game [of rt p])
next
  case (step q x)
  then show ?case
    by (auto simp: ascend_game [of rt x])
qed

lemma ascend_to_root:
  assumes "up_chain rt V c x" "node_parent c = None"
  shows "ascend V x = Inr c"
  using assms
proof (induction rule: up_chain.induct)
  case base
  then show ?case by (simp add: ascend_game [of rt c])
next
  case (step q x)
  then show ?case by (simp add: ascend_game [of rt x])
qed

lemma up_chain_extend:
  assumes "up_chain rt V c x" "node_parent c = Some p" "up_chain rt V p p"
  shows "up_chain rt V p x"
  using assms
proof (induction rule: up_chain.induct)
  case base
  then show ?case by (auto intro: up_chain.step)
next
  case (step q x)
  then show ?case by (auto intro: up_chain.step)
qed

subsection \<open>One call of \<^verbatim>\<open>depth_first_search\<close>\<close>

lemma dfs_unvisited:
  assumes g: "game_node rt c" and nv: "\<not> in_visited (visited_nodes self) c"
  shows "depth_first_search self c =
     Some (Inr c, self \<lparr> node := (case unvisited (visited_nodes self) c of
                                     Some u \<Rightarrow> u ! 0 | None \<Rightarrow> c),
                          visited_nodes := visited_nodes self @ [c] \<rparr>)"
proof -
  obtain ch where ch: "children c = Inr ch"
      "get_unvisited_items (visited_nodes self) ch = unvisited (visited_nodes self) c"
    using get_unvisited_children [OF g] by blast
  show ?thesis
    by (subst depth_first_search.simps) (simp add: ch nv Let_def)
qed

lemma first_unvisited:
  assumes "unvisited V p = Some u"
  shows "u ! 0 \<in> set (children_list p)" "\<not> in_visited V (u ! 0)"
proof -
  have u: "u = filter (\<lambda>c. \<not> in_visited V c) (children_list p)" "u \<noteq> []"
    using assms by (auto simp: unvisited_def Let_def split: if_splits)
  have "u ! 0 \<in> set u"
    using u(2) by (simp add: nth_mem)
  then have "u ! 0 \<in> set (filter (\<lambda>c. \<not> in_visited V c) (children_list p))"
    using u(1) by simp
  then show "u ! 0 \<in> set (children_list p)" "\<not> in_visited V (u ! 0)"
    by simp_all
qed

lemma dfs_visited_descend:
  assumes g: "game_node rt p" and v: "in_visited (visited_nodes self) p"
    and u: "unvisited (visited_nodes self) p = Some u"
  shows "depth_first_search self p =
     Some (Inr (u ! 0), self \<lparr> node := (case unvisited (visited_nodes self) (u ! 0) of
                                           Some w \<Rightarrow> w ! 0 | None \<Rightarrow> u ! 0),
                                visited_nodes := visited_nodes self @ [u ! 0] \<rparr>)"
proof -
  obtain ch where ch: "children p = Inr ch"
      "get_unvisited_items (visited_nodes self) ch = unvisited (visited_nodes self) p"
    using get_unvisited_children [OF g] by blast
  note fu = first_unvisited [OF u]
  have gc: "game_node rt (u ! 0)"
    by (rule children_list_game(1) [OF g fu(1)])
  have "depth_first_search self p = depth_first_search (self \<lparr> node := u ! 0 \<rparr>) (u ! 0)"
    by (subst depth_first_search.simps) (simp add: ch u v Let_def)
  also have "\<dots> = Some (Inr (u ! 0),
      self \<lparr> node := (case unvisited (visited_nodes self) (u ! 0) of
                        Some w \<Rightarrow> w ! 0 | None \<Rightarrow> u ! 0),
             visited_nodes := visited_nodes self @ [u ! 0] \<rparr>)"
    using dfs_unvisited [OF gc, of "self \<lparr> node := u ! 0 \<rparr>"] fu(2) by simp
  finally show ?thesis .
qed

lemma dfs_stop:
  assumes g: "game_node rt x" and v: "in_visited (visited_nodes self) x"
    and u: "unvisited (visited_nodes self) x = None" and p: "node_parent x = None"
  shows "depth_first_search self x = Some (Inl StopIteration, self)"
proof -
  obtain ch where ch: "children x = Inr ch"
      "get_unvisited_items (visited_nodes self) ch = unvisited (visited_nodes self) x"
    using get_unvisited_children [OF g] by blast
  show ?thesis
    by (subst depth_first_search.simps) (simp add: ch u v p Let_def)
qed

lemma dfs_ascend:
  assumes g: "game_node rt x" and v: "in_visited (visited_nodes self) x"
    and u: "unvisited (visited_nodes self) x = None" and p: "node_parent x = Some q"
    and a: "ascend (visited_nodes self) x = Inr a" and va: "in_visited (visited_nodes self) a"
  shows "depth_first_search self x = depth_first_search (self \<lparr> node := a \<rparr>) a"
proof -
  obtain ch where ch: "children x = Inr ch"
      "get_unvisited_items (visited_nodes self) ch = unvisited (visited_nodes self) x"
    using get_unvisited_children [OF g] by blast
  show ?thesis
    by (subst depth_first_search.simps) (simp add: ch u v p a va Let_def)
qed

subsection \<open>A call of \<^verbatim>\<open>__next__\<close> at the positions the iterator goes through\<close>

lemma trav_Suc: "trav (Suc k) V n = foldl (visit k) (V @ [n]) (children_list n)"
  by (simp add: visit_def [abs_def])

lemma visit_simps:
  "in_visited W c \<Longrightarrow> visit k W c = W"
  "\<not> in_visited W c \<Longrightarrow> visit k W c = trav k W c"
  by (simp_all add: visit_def)

lemma dfs_unvisited':
  assumes "game_node rt c" "\<not> in_visited V c"
  shows "depth_first_search \<lparr> node = x, visited_nodes = V \<rparr> c =
     Some (Inr c, \<lparr> node = (case unvisited V c of Some u \<Rightarrow> u ! 0 | None \<Rightarrow> c),
                    visited_nodes = V @ [c] \<rparr>)"
  using dfs_unvisited [OF assms(1), of "\<lparr> node = x, visited_nodes = V \<rparr>"] assms(2) by simp

lemma up_chain_top:
  "up_chain rt V c x \<Longrightarrow> game_node rt c \<and> in_visited V c \<and> unvisited V c = None"
  by (induction rule: up_chain.induct) auto

lemma up_chain_parent:
  "up_chain rt V c x \<Longrightarrow> node_parent c = Some p \<Longrightarrow> \<exists>q. node_parent x = Some q"
  by (induction rule: up_chain.induct) auto

lemma dfs_descend:
  assumes g: "game_node rt p" and v: "in_visited W p" and u: "unvisited W p = Some u"
    and x: "x = p \<or> (\<exists>c. node_parent c = Some p \<and> up_chain rt W c x) \<or> x = u ! 0"
  shows "depth_first_search \<lparr> node = y, visited_nodes = W \<rparr> x =
     Some (Inr (u ! 0),
           \<lparr> node = (case unvisited W (u ! 0) of Some w \<Rightarrow> w ! 0 | None \<Rightarrow> u ! 0),
             visited_nodes = W @ [u ! 0] \<rparr>)"
proof -
  note fu = first_unvisited [OF u]
  have gc: "game_node rt (u ! 0)"
    by (rule children_list_game(1) [OF g fu(1)])
  have at_p: "depth_first_search \<lparr> node = z, visited_nodes = W \<rparr> p =
     Some (Inr (u ! 0),
           \<lparr> node = (case unvisited W (u ! 0) of Some w \<Rightarrow> w ! 0 | None \<Rightarrow> u ! 0),
             visited_nodes = W @ [u ! 0] \<rparr>)" for z
    using dfs_visited_descend [OF g, of "\<lparr> node = z, visited_nodes = W \<rparr>" u] v u by simp
  from x consider "x = p" | c where "node_parent c = Some p" "up_chain rt W c x" | "x = u ! 0"
    by blast
  then show ?thesis
  proof cases
    case 1
    then show ?thesis using at_p by simp
  next
    case 2
    have gx: "game_node rt x" by (rule up_chain_game [OF 2(2)])
    have vx: "in_visited W x" "unvisited W x = None"
      using up_chain_visited [OF 2(2)] by simp_all
    obtain q where q: "node_parent x = Some q"
      using up_chain_parent [OF 2(2) 2(1)] by blast
    have a: "ascend W x = Inr p"
      using ascend_to_parent [OF 2(2) 2(1) g] u by simp
    have "depth_first_search \<lparr> node = y, visited_nodes = W \<rparr> x =
          depth_first_search (\<lparr> node = y, visited_nodes = W \<rparr> \<lparr> node := p \<rparr>) p"
      by (rule dfs_ascend [OF gx _ _ q]) (simp_all add: vx a v)
    then show ?thesis using at_p by simp
  next
    case 3
    then show ?thesis using dfs_unvisited' [OF gc fu(2)] by simp
  qed
qed

lemma dfs_finished:
  assumes c: "up_chain rt W r x" and r: "node_parent r = None"
  shows "\<exists>it. depth_first_search \<lparr> node = y, visited_nodes = W \<rparr> x = Some (Inl StopIteration, it)"
proof -
  have gx: "game_node rt x" by (rule up_chain_game [OF c])
  have vx: "in_visited W x" "unvisited W x = None"
    using up_chain_visited [OF c] by simp_all
  have top: "game_node rt r" "in_visited W r" "unvisited W r = None"
    using up_chain_top [OF c] by simp_all
  show ?thesis
  proof (cases "node_parent x")
    case None
    then show ?thesis
      using dfs_stop [OF gx, of "\<lparr> node = y, visited_nodes = W \<rparr>"] vx by simp
  next
    case (Some q)
    have a: "ascend W x = Inr r"
      by (rule ascend_to_root [OF c r])
    have "depth_first_search \<lparr> node = y, visited_nodes = W \<rparr> x =
          depth_first_search (\<lparr> node = y, visited_nodes = W \<rparr> \<lparr> node := r \<rparr>) r"
      by (rule dfs_ascend [OF gx _ _ Some]) (simp_all add: vx a top)
    then show ?thesis
      using dfs_stop [OF top(1), of "\<lparr> node = r, visited_nodes = W \<rparr>"] top r by simp
  qed
qed

lemma collect_step:
  "NodeIterator_next it = Some (Inr n, it') \<Longrightarrow> collect it acc = collect it' (acc @ [n])"
  by (subst collect.simps) simp

lemma collect_stop:
  "NodeIterator_next it = Some (Inl StopIteration, it') \<Longrightarrow> collect it acc = Some (Inr acc)"
  by (subst collect.simps) simp

lemma collect_same_next:
  "NodeIterator_next it = NodeIterator_next it' \<Longrightarrow> collect it acc = collect it' acc"
  by (subst collect.simps, subst (2) collect.simps) simp

subsection \<open>The visited list only grows\<close>

lemma foldl_visit_prefix:
  assumes "\<And>W c. \<exists>ys. trav k W c = W @ c # ys"
  shows "\<exists>zs. foldl (visit k) W cs = W @ zs"
proof (induction cs arbitrary: W)
  case Nil
  then show ?case by simp
next
  case (Cons c cs)
  have "\<exists>ys. visit k W c = W @ ys"
  proof (cases "in_visited W c")
    case True
    then show ?thesis by (simp add: visit_simps)
  next
    case False
    then show ?thesis using assms [of W c] by (auto simp: visit_simps)
  qed
  then obtain ys where ys: "visit k W c = W @ ys"
    by blast
  obtain zs where "foldl (visit k) (visit k W c) cs = visit k W c @ zs"
    using Cons.IH by blast
  then show ?case by (simp add: ys)
qed

lemma trav_prefix: "\<exists>ys. trav k V n = V @ n # ys"
proof (induction k arbitrary: V n)
  case 0
  then show ?case by simp
next
  case (Suc k)
  obtain zs where "foldl (visit k) (V @ [n]) (children_list n) = (V @ [n]) @ zs"
    using foldl_visit_prefix [of k "V @ [n]" "children_list n"] Suc.IH by blast
  then show ?case unfolding trav_Suc by simp
qed

lemma in_visited_trav: "in_visited V x \<Longrightarrow> in_visited (trav k V n) x"
  using trav_prefix [of k V n] by auto

lemma in_visited_trav_self: "in_visited (trav k V n) n"
  using trav_prefix [of k V n] by (auto simp: in_visited_iff)

lemma foldl_visit_grows: "\<exists>zs. foldl (visit k) W cs = W @ zs"
  by (rule foldl_visit_prefix) (rule trav_prefix)

lemma foldl_visit_all_visited:
  "(\<And>c. c \<in> set cs \<Longrightarrow> in_visited W c) \<Longrightarrow> foldl (visit k) W cs = W"
  by (induction cs) (simp_all add: visit_simps)

lemma foldl_visit_restart:
  "filter (\<lambda>c. \<not> in_visited W c) cs = c2 # rest \<Longrightarrow>
   foldl (visit k) W cs = foldl (visit k) (trav k W c2) cs"
proof (induction cs)
  case Nil
  then show ?case by simp
next
  case (Cons a cs)
  show ?case
  proof (cases "in_visited W a")
    case True
    then have "filter (\<lambda>c. \<not> in_visited W c) cs = c2 # rest"
      using Cons.prems by simp
    then have "foldl (visit k) W cs = foldl (visit k) (trav k W c2) cs"
      by (rule Cons.IH)
    then show ?thesis
      using True by (simp add: visit_simps in_visited_trav)
  next
    case False
    then have "a = c2" using Cons.prems by simp
    then show ?thesis
      using False by (simp add: visit_simps in_visited_trav_self)
  qed
qed

lemma length_filter_mono:
  "(\<And>x. x \<in> set xs \<Longrightarrow> P x \<Longrightarrow> Q x) \<Longrightarrow> length (filter P xs) \<le> length (filter Q xs)"
  by (induction xs) auto

lemma length_filter_less:
  assumes "\<And>x. x \<in> set xs \<Longrightarrow> P x \<Longrightarrow> Q x" "y \<in> set xs" "Q y" "\<not> P y"
  shows "length (filter P xs) < length (filter Q xs)"
  using assms
proof (induction xs)
  case Nil
  then show ?case by simp
next
  case (Cons x xs)
  have le: "length (filter P xs) \<le> length (filter Q xs)"
    using Cons.prems(1) by (intro length_filter_mono) auto
  show ?case
  proof (cases "y = x")
    case True
    then show ?thesis using le Cons.prems by simp
  next
    case False
    then have "length (filter P xs) < length (filter Q xs)"
      using Cons by auto
    then show ?thesis using Cons.prems(1) [of x] by auto
  qed
qed

subsection \<open>The iteration is the traversal\<close>

lemma next_eq: "NodeIterator_next \<lparr> node = x, visited_nodes = W \<rparr> =
    depth_first_search \<lparr> node = x, visited_nodes = W \<rparr> x"
  by (simp add: NodeIterator_next_def)

lemma unvisited_None_iff:
  "(unvisited W p = None) = (\<forall>c \<in> set (children_list p). in_visited W c)"
  by (auto simp: unvisited_def Let_def filter_empty_conv)

lemma unvisited_Some:
  "unvisited W p = Some u \<Longrightarrow> filter (\<lambda>c. \<not> in_visited W c) (children_list p) = u ! 0 # tl u"
  by (cases u) (auto simp: unvisited_def Let_def split: if_splits)

lemma unvisited_append_self:
  assumes "game_node rt c"
  shows "unvisited (V @ [c]) c = unvisited V c"
proof -
  have "filter (\<lambda>x. \<not> in_visited (V @ [c]) x) (children_list c)
      = filter (\<lambda>x. \<not> in_visited V x) (children_list c)"
    using child_not_eq_parent [OF assms] by (auto intro!: filter_cong dest: Node_eq_sym)
  then show ?thesis by (simp add: unvisited_def)
qed

lemma children_loop_traversed:
  assumes S: "traversed rt k" and g: "game_node rt p" and rk: "rank p \<le> Suc k"
  shows "in_visited W p \<Longrightarrow>
     x = p \<or> (\<exists>c. node_parent c = Some p \<and> up_chain rt W c x) \<or>
       (\<exists>u. unvisited W p = Some u \<and> x = u ! 0) \<Longrightarrow>
     \<exists>x'. collect \<lparr> node = x, visited_nodes = W \<rparr> acc =
           collect \<lparr> node = x', visited_nodes = foldl (visit k) W (children_list p) \<rparr>
             (acc @ drop (length W) (foldl (visit k) W (children_list p))) \<and>
          up_chain rt (foldl (visit k) W (children_list p)) p x'"
proof (induction "length (filter (\<lambda>c. \<not> in_visited W c) (children_list p))"
        arbitrary: W x acc rule: less_induct)
  case less
  let ?cs = "children_list p"
  show ?case
  proof (cases "unvisited W p")
    case None
    then have all: "\<And>c. c \<in> set ?cs \<Longrightarrow> in_visited W c"
      by (simp add: unvisited_None_iff)
    have same: "foldl (visit k) W ?cs = W"
      by (rule foldl_visit_all_visited) (rule all)
    have top: "up_chain rt W p p"
      using g less.prems(1) None by (rule up_chain.base)
    have "up_chain rt W p x"
      using less.prems(2) None top by (auto intro: up_chain_extend)
    then show ?thesis
      unfolding same by auto
  next
    case (Some u)
    let ?c = "u ! 0"
    note fu = first_unvisited [OF Some]
    have gc: "game_node rt ?c"
      by (rule children_list_game(1) [OF g fu(1)])
    have rc: "rank ?c \<le> k"
      using children_list_game(3) [OF g fu(1)] rk by simp
    have pos: "x = p \<or> (\<exists>c. node_parent c = Some p \<and> up_chain rt W c x) \<or> x = ?c"
      using less.prems(2) Some by auto
    have "NodeIterator_next \<lparr> node = x, visited_nodes = W \<rparr> =
          NodeIterator_next \<lparr> node = ?c, visited_nodes = W \<rparr>"
      unfolding next_eq
      using dfs_descend [OF g less.prems(1) Some pos, of x]
        dfs_unvisited' [OF gc fu(2), of ?c] by simp
    then have e1: "collect \<lparr> node = x, visited_nodes = W \<rparr> acc =
                   collect \<lparr> node = ?c, visited_nodes = W \<rparr> acc"
      by (rule collect_same_next)
    let ?W2 = "trav k W ?c"
    obtain x2 where x2:
      "collect \<lparr> node = ?c, visited_nodes = W \<rparr> acc =
       collect \<lparr> node = x2, visited_nodes = ?W2 \<rparr> (acc @ drop (length W) ?W2)"
      "up_chain rt ?W2 ?c x2"
      using S gc fu(2) rc unfolding traversed_def by blast
    have less': "length (filter (\<lambda>c. \<not> in_visited ?W2 c) ?cs)
               < length (filter (\<lambda>c. \<not> in_visited W c) ?cs)"
      by (rule length_filter_less [of _ _ _ ?c])
         (auto simp: in_visited_trav in_visited_trav_self fu)
    have vp: "in_visited ?W2 p"
      using less.prems(1) by (rule in_visited_trav)
    have pc: "node_parent ?c = Some p"
      by (rule children_list_game(2) [OF g fu(1)])
    have pos2: "x2 = p \<or> (\<exists>c. node_parent c = Some p \<and> up_chain rt ?W2 c x2) \<or>
               (\<exists>u. unvisited ?W2 p = Some u \<and> x2 = u ! 0)"
      using pc x2(2) by blast
    obtain x' where x':
      "collect \<lparr> node = x2, visited_nodes = ?W2 \<rparr> (acc @ drop (length W) ?W2) =
       collect \<lparr> node = x', visited_nodes = foldl (visit k) ?W2 ?cs \<rparr>
         ((acc @ drop (length W) ?W2) @ drop (length ?W2) (foldl (visit k) ?W2 ?cs))"
      "up_chain rt (foldl (visit k) ?W2 ?cs) p x'"
      using less.hyps [OF less' vp pos2] by blast
    have restart: "foldl (visit k) W ?cs = foldl (visit k) ?W2 ?cs"
      by (rule foldl_visit_restart [OF unvisited_Some [OF Some]])
    obtain ys where ys: "?W2 = W @ ys"
      using trav_prefix [of k W ?c] by auto
    obtain zs where zs: "foldl (visit k) ?W2 ?cs = ?W2 @ zs"
      using foldl_visit_grows by blast
    have acc_eq: "(acc @ drop (length W) ?W2) @ drop (length ?W2) (foldl (visit k) ?W2 ?cs)
                = acc @ drop (length W) (foldl (visit k) ?W2 ?cs)"
      unfolding zs by (simp add: ys)
    show ?thesis
      unfolding restart using e1 x2(1) x'(1) x'(2) acc_eq by auto
  qed
qed

lemma traversed_0: "traversed rt 0"
  unfolding traversed_def
proof (intro allI impI)
  fix c V acc
  assume g: "game_node rt c" and nv: "\<not> in_visited V c" and rk: "rank c \<le> 0"
  have none: "children_list c = []"
  proof (cases "children_list c")
    case Nil
    then show ?thesis .
  next
    case (Cons a as)
    then have "a \<in> set (children_list c)" by simp
    then show ?thesis
      using children_list_game(3) [OF g] rk by fastforce
  qed
  then have u: "unvisited W c = None" for W
    by (simp add: unvisited_def)
  have "NodeIterator_next \<lparr> node = c, visited_nodes = V \<rparr> =
        Some (Inr c, \<lparr> node = c, visited_nodes = V @ [c] \<rparr>)"
    unfolding next_eq using dfs_unvisited' [OF g nv, of c] by (simp add: u)
  then have "collect \<lparr> node = c, visited_nodes = V \<rparr> acc =
             collect \<lparr> node = c, visited_nodes = V @ [c] \<rparr> (acc @ [c])"
    by (rule collect_step)
  moreover have "up_chain rt (V @ [c]) c c"
    using g u by (intro up_chain.base) simp_all
  ultimately show "\<exists>x. collect \<lparr> node = c, visited_nodes = V \<rparr> acc =
              collect \<lparr> node = x, visited_nodes = trav 0 V c \<rparr>
                (acc @ drop (length V) (trav 0 V c)) \<and>
             up_chain rt (trav 0 V c) c x"
    by auto
qed

lemma traversed_Suc:
  assumes S: "traversed rt k"
  shows "traversed rt (Suc k)"
  unfolding traversed_def
proof (intro allI impI)
  fix c V acc
  assume g: "game_node rt c" and nv: "\<not> in_visited V c" and rk: "rank c \<le> Suc k"
  let ?x1 = "case unvisited V c of Some u \<Rightarrow> u ! 0 | None \<Rightarrow> c"
  let ?W = "V @ [c]"
  have "NodeIterator_next \<lparr> node = c, visited_nodes = V \<rparr> =
        Some (Inr c, \<lparr> node = ?x1, visited_nodes = ?W \<rparr>)"
    unfolding next_eq using dfs_unvisited' [OF g nv, of c] by simp
  then have e1: "collect \<lparr> node = c, visited_nodes = V \<rparr> acc =
                 collect \<lparr> node = ?x1, visited_nodes = ?W \<rparr> (acc @ [c])"
    by (rule collect_step)
  have v: "in_visited ?W c" by simp
  have pos: "?x1 = c \<or> (\<exists>d. node_parent d = Some c \<and> up_chain rt ?W d ?x1) \<or>
             (\<exists>u. unvisited ?W c = Some u \<and> ?x1 = u ! 0)"
    unfolding unvisited_append_self [OF g] by (cases "unvisited V c") auto
  let ?W' = "foldl (visit k) ?W (children_list c)"
  obtain x' where x':
    "collect \<lparr> node = ?x1, visited_nodes = ?W \<rparr> (acc @ [c]) =
     collect \<lparr> node = x', visited_nodes = ?W' \<rparr> ((acc @ [c]) @ drop (length ?W) ?W')"
    "up_chain rt ?W' c x'"
    using children_loop_traversed [OF S g rk v pos] by blast
  obtain zs where zs: "?W' = ?W @ zs"
    using foldl_visit_grows by blast
  have acc_eq: "(acc @ [c]) @ drop (length ?W) ?W' = acc @ drop (length V) ?W'"
    unfolding zs by simp
  show "\<exists>x. collect \<lparr> node = c, visited_nodes = V \<rparr> acc =
              collect \<lparr> node = x, visited_nodes = trav (Suc k) V c \<rparr>
                (acc @ drop (length V) (trav (Suc k) V c)) \<and>
             up_chain rt (trav (Suc k) V c) c x"
    unfolding trav_Suc using e1 x' acc_eq by auto
qed

lemma traversed_all: "traversed rt k"
  by (induction k) (simp_all add: traversed_0 traversed_Suc)

lemma iterate_root:
  assumes "game_node rt rt"
  shows "iterate rt = Some (Inr (trav (rank rt) [] rt))"
proof -
  obtain x where x:
    "collect \<lparr> node = rt, visited_nodes = [] \<rparr> [] =
     collect \<lparr> node = x, visited_nodes = trav (rank rt) [] rt \<rparr>
       ([] @ drop (length ([] :: Node list)) (trav (rank rt) [] rt))"
    "up_chain rt (trav (rank rt) [] rt) rt x"
    using traversed_all [of rt "rank rt"] assms unfolding traversed_def
    by (metis in_visited_Nil le_refl)
  have p: "node_parent rt = None"
    using game_node_fields [OF assms] by simp
  obtain it where "NodeIterator_next \<lparr> node = x, visited_nodes = trav (rank rt) [] rt \<rparr>
      = Some (Inl StopIteration, it)"
    unfolding next_eq using dfs_finished [OF x(2) p] by blast
  then have "collect \<lparr> node = x, visited_nodes = trav (rank rt) [] rt \<rparr> (trav (rank rt) [] rt)
      = Some (Inr (trav (rank rt) [] rt))"
    by (rule collect_stop)
  then show ?thesis
    using x(1) by (simp add: iterate_def Node_iter_def)
qed

subsection \<open>The traversal yields the first occurrences in the pre-order\<close>

lemma no_children_rank_0:
  assumes "game_node rt n" "rank n = 0"
  shows "children_list n = []"
proof (cases "children_list n")
  case Nil
  then show ?thesis .
next
  case (Cons a as)
  then have "a \<in> set (children_list n)" by simp
  then show ?thesis
    using children_list_game(3) [OF assms(1)] assms(2) by fastforce
qed

lemma preorder_fuel:
  "game_node rt n \<Longrightarrow> rank n \<le> k \<Longrightarrow> rank n \<le> j \<Longrightarrow> preorder k n = preorder j n"
proof (induction k arbitrary: j n)
  case 0
  then have "children_list n = []" by (simp add: no_children_rank_0)
  then show ?case by (cases j) simp_all
next
  case (Suc k)
  show ?case
  proof (cases j)
    case 0
    then have "children_list n = []"
      using Suc.prems by (simp add: no_children_rank_0)
    then show ?thesis using 0 by simp
  next
    case (Suc j')
    have "preorder k c = preorder j' c" if "c \<in> set (children_list n)" for c
      using children_list_game(1,3) [OF Suc.prems(1) that] Suc.prems(2,3) \<open>j = Suc j'\<close>
      by (intro Suc.IH) simp_all
    then show ?thesis
      unfolding \<open>j = Suc j'\<close> by (simp cong: map_cong)
  qed
qed

lemma preorder_game_node:
  "game_node rt n \<Longrightarrow> x \<in> set (preorder k n) \<Longrightarrow> game_node rt x"
proof (induction k arbitrary: n)
  case 0
  then show ?case by simp
next
  case (Suc k)
  then show ?case
    using children_list_game(1) [OF Suc.prems(1)] by auto
qed

lemma tree_children_defined:
  assumes "game_node rt rt" "x \<in> set (subtree rt)"
  shows "children x = Inr (if node_winner x \<noteq> None then None else Some (children_list x))"
proof -
  have g: "game_node rt x"
    using preorder_game_node [OF assms(1)] assms(2) by (simp add: subtree_def)
  show ?thesis
    using children_eq [OF g] node_winner_field [OF g]
    by (simp add: children_list_def)
qed

lemma first_occurrences_append:
  "first_occurrences V (xs @ ys) =
     first_occurrences V xs @ first_occurrences (V @ first_occurrences V xs) ys"
  by (induction xs arbitrary: V) simp_all

lemma first_occurrences_all_visited:
  "(\<And>x. x \<in> set xs \<Longrightarrow> in_visited V x) \<Longrightarrow> first_occurrences V xs = []"
  by (induction xs) simp_all

lemma list_all2_Node_eq_visited:
  assumes "list_all2 Node_eq xs ys" "\<And>x. x \<in> set xs \<Longrightarrow> in_visited W x" "y \<in> set ys"
  shows "in_visited W y"
proof -
  obtain i where i: "i < length ys" "ys ! i = y"
    using assms(3) by (auto simp: in_set_conv_nth)
  then have "Node_eq (xs ! i) y" "xs ! i \<in> set xs"
    using assms(1) by (auto simp: list_all2_conv_all_nth)
  then show ?thesis
    using assms(2) in_visited_cong_eq by blast
qed

lemma finished_subtree_visited:
  assumes f: "finished rt r W"
  shows "game_node rt c \<Longrightarrow> rank c \<le> r \<Longrightarrow> in_visited W c \<Longrightarrow>
         x \<in> set (preorder j c) \<Longrightarrow> in_visited W x"
proof (induction j arbitrary: c x)
  case 0
  then show ?case by simp
next
  case (Suc j)
  from Suc.prems(4) consider "x = c"
    | d where "d \<in> set (children_list c)" "x \<in> set (preorder j d)"
    by auto
  then show ?case
  proof cases
    case 1
    then show ?thesis using Suc.prems(3) by simp
  next
    case 2
    obtain w where w: "w \<in> set W" "Node_eq w c"
      using Suc.prems(3) by (auto simp: in_visited_iff)
    have gw: "game_node rt w"
      using f w(1) by (simp add: finished_def)
    have "rank w = rank c"
      by (rule Node_eq_rank [OF gw Suc.prems(1) w(2)])
    then have cw: "\<And>y. y \<in> set (children_list w) \<Longrightarrow> in_visited W y"
      using f w(1) Suc.prems(2) by (simp add: finished_def)
    have "list_all2 Node_eq (children_list w) (children_list c)"
      by (rule children_bisim [OF gw Suc.prems(1) w(2)])
    then have vd: "in_visited W d"
      using cw 2(1) by (rule list_all2_Node_eq_visited)
    have "game_node rt d" "rank d \<le> r"
      using children_list_game(1,3) [OF Suc.prems(1) 2(1)] Suc.prems(2) by simp_all
    then show ?thesis
      using vd 2(2) by (rule Suc.IH)
  qed
qed

lemma finished_mono: "finished rt r W \<Longrightarrow> r' \<le> r \<Longrightarrow> finished rt r' W"
  by (auto simp: finished_def)

lemma children_rank:
  assumes "game_node rt n" "c \<in> set (children_list n)"
  shows "rank c = rank n - 1" "0 < rank n"
proof -
  obtain mv where mv: "mv \<in> set (empty_cells (node_board n))" "c = child_node n mv"
    using children_list_child [OF assms] by blast
  show "rank c = rank n - 1" "0 < rank n"
    using rank_child [OF mv(1)] mv(2) by simp_all
qed

lemma foldl_visit_spec:
  assumes S: "trav_spec rt k" and g: "game_node rt n" and rk: "rank n \<le> Suc k"
  shows "set cs \<subseteq> set (children_list n) \<Longrightarrow> finished rt (rank n - 1) W \<Longrightarrow>
     foldl (visit k) W cs = W @ first_occurrences W (concat (map (preorder k) cs)) \<and>
     finished rt (rank n - 1) (foldl (visit k) W cs) \<and>
     (\<forall>c \<in> set cs. in_visited (foldl (visit k) W cs) c) \<and>
     (\<forall>v \<in> set (foldl (visit k) W cs). v \<in> set W \<or> rank v \<le> rank n - 1)"
proof (induction cs arbitrary: W)
  case Nil
  then show ?case by simp
next
  case (Cons c cs)
  have c: "c \<in> set (children_list n)" and cs: "set cs \<subseteq> set (children_list n)"
    using Cons.prems(1) by simp_all
  have gc: "game_node rt c" and rc: "rank c = rank n - 1" "rank c \<le> k"
    using children_list_game(1,3) [OF g c] children_rank(1) [OF g c] rk by simp_all
  let ?W1 = "visit k W c"
  have step: "?W1 = W @ first_occurrences W (preorder k c) \<and> finished rt (rank n - 1) ?W1 \<and>
              in_visited ?W1 c \<and> (\<forall>v \<in> set ?W1. v \<in> set W \<or> rank v \<le> rank n - 1)"
  proof (cases "in_visited W c")
    case True
    have "first_occurrences W (preorder k c) = []"
      using finished_subtree_visited [OF Cons.prems(2) gc _ True] rc(1)
      by (intro first_occurrences_all_visited) simp
    then show ?thesis
      using True Cons.prems(2) by (simp add: visit_simps)
  next
    case False
    have "finished rt (rank c) W"
      using Cons.prems(2) rc(1) by simp
    then have t: "trav k W c = W @ first_occurrences W (preorder k c) \<and>
        finished rt (rank c) (trav k W c) \<and>
        (\<forall>v \<in> set (trav k W c). v \<in> set W \<or> rank v \<le> rank c)"
      using S gc rc(2) False unfolding trav_spec_def by blast
    have v1: "?W1 = trav k W c"
      using False by (simp add: visit_simps)
    show ?thesis
      unfolding v1 using t [unfolded rc(1)] in_visited_trav_self [of k W c] by blast
  qed
  note s1 = step [THEN conjunct1] and s2 = step [THEN conjunct2, THEN conjunct1]
    and s3 = step [THEN conjunct2, THEN conjunct2, THEN conjunct1]
    and s4 = step [THEN conjunct2, THEN conjunct2, THEN conjunct2]
  have IH: "foldl (visit k) ?W1 cs = ?W1 @ first_occurrences ?W1 (concat (map (preorder k) cs)) \<and>
     finished rt (rank n - 1) (foldl (visit k) ?W1 cs) \<and>
     (\<forall>c \<in> set cs. in_visited (foldl (visit k) ?W1 cs) c) \<and>
     (\<forall>v \<in> set (foldl (visit k) ?W1 cs). v \<in> set ?W1 \<or> rank v \<le> rank n - 1)"
    by (rule Cons.IH [OF cs s2])
  note i1 = IH [THEN conjunct1] and i2 = IH [THEN conjunct2, THEN conjunct1]
    and i3 = IH [THEN conjunct2, THEN conjunct2, THEN conjunct1]
    and i4 = IH [THEN conjunct2, THEN conjunct2, THEN conjunct2]
  obtain zs where zs: "foldl (visit k) ?W1 cs = ?W1 @ zs"
    using foldl_visit_grows by blast
  have vc: "in_visited (foldl (visit k) ?W1 cs) c"
    unfolding zs using s3 by simp
  have "?W1 @ first_occurrences ?W1 (concat (map (preorder k) cs)) =
        W @ first_occurrences W (concat (map (preorder k) (c # cs)))"
    by (simp add: first_occurrences_append s1)
  then have eq: "foldl (visit k) ?W1 cs =
            W @ first_occurrences W (concat (map (preorder k) (c # cs)))"
    using i1 by simp
  have new: "\<forall>v \<in> set (foldl (visit k) ?W1 cs). v \<in> set W \<or> rank v \<le> rank n - 1"
    using s4 i4 by blast
  have third: "\<forall>c' \<in> set (c # cs). in_visited (foldl (visit k) ?W1 cs) c'"
    using vc i3 by simp
  show ?case
    unfolding foldl_Cons using eq i2 third new by blast
qed

lemma trav_spec_0: "trav_spec rt 0"
  unfolding trav_spec_def
proof (intro allI impI)
  fix n V
  assume g: "game_node rt n" and rk: "rank n \<le> 0" and nv: "\<not> in_visited V n"
    and f: "finished rt (rank n) V"
  have none: "children_list n = []"
    using g rk by (simp add: no_children_rank_0)
  have "finished rt (rank n) (V @ [n])"
    using f g none by (auto simp: finished_def)
  then show "trav 0 V n = V @ first_occurrences V (preorder 0 n) \<and>
        finished rt (rank n) (trav 0 V n) \<and>
        (\<forall>v \<in> set (trav 0 V n). v \<in> set V \<or> rank v \<le> rank n)"
    using nv by simp
qed

lemma trav_spec_Suc:
  assumes S: "trav_spec rt k"
  shows "trav_spec rt (Suc k)"
  unfolding trav_spec_def
proof (intro allI impI)
  fix n V
  assume g: "game_node rt n" and rk: "rank n \<le> Suc k" and nv: "\<not> in_visited V n"
    and f: "finished rt (rank n) V"
  let ?cs = "children_list n"
  let ?W = "V @ [n]"
  let ?W' = "foldl (visit k) ?W ?cs"
  have f0: "finished rt (rank n - 1) ?W"
    unfolding finished_def
  proof (intro ballI conjI impI)
    fix v x
    assume v: "v \<in> set ?W"
    show "game_node rt v"
      using v f g by (auto simp: finished_def)
    assume r: "rank v \<le> rank n - 1" and x: "x \<in> set (children_list v)"
    show "in_visited ?W x"
    proof (cases "v = n")
      case True
      then show ?thesis
        using children_rank(2) [OF g, of x] x r by auto
    next
      case False
      then have "v \<in> set V" using v by simp
      then show ?thesis
        using f r x by (auto simp: finished_def)
    qed
  qed
  have L: "?W' = ?W @ first_occurrences ?W (concat (map (preorder k) ?cs))"
      "finished rt (rank n - 1) ?W'"
      "\<forall>c \<in> set ?cs. in_visited ?W' c"
      "\<forall>v \<in> set ?W'. v \<in> set ?W \<or> rank v \<le> rank n - 1"
    using foldl_visit_spec [OF S g rk subset_refl f0] by blast+
  obtain zs where zs: "?W' = ?W @ zs"
    using foldl_visit_grows by blast
  have eq: "trav (Suc k) V n = V @ first_occurrences V (preorder (Suc k) n)"
    unfolding trav_Suc using L(1) nv by simp
  have fin: "finished rt (rank n) ?W'"
    unfolding finished_def
  proof (intro ballI conjI impI)
    fix v x
    assume v: "v \<in> set ?W'"
    show "game_node rt v"
      using v L(2) by (simp add: finished_def)
    assume r: "rank v \<le> rank n" and x: "x \<in> set (children_list v)"
    show "in_visited ?W' x"
    proof (cases "rank v \<le> rank n - 1")
      case True
      then show ?thesis
        using L(2) v x by (auto simp: finished_def)
    next
      case False
      then have "v \<in> set ?W" using L(4) v by blast
      then consider "v = n" | "v \<in> set V" by auto
      then show ?thesis
      proof cases
        case 1
        then show ?thesis using L(3) x by simp
      next
        case 2
        then have "in_visited V x"
          using f r x by (auto simp: finished_def)
        then show ?thesis unfolding zs by simp
      qed
    qed
  qed
  have new: "\<forall>v \<in> set ?W'. v \<in> set V \<or> rank v \<le> rank n"
    using L(4) by auto
  show "trav (Suc k) V n = V @ first_occurrences V (preorder (Suc k) n) \<and>
        finished rt (rank n) (trav (Suc k) V n) \<and>
        (\<forall>v \<in> set (trav (Suc k) V n). v \<in> set V \<or> rank v \<le> rank n)"
    using eq fin new unfolding trav_Suc by simp
qed

lemma trav_spec_all: "trav_spec rt k"
  by (induction k) (simp_all add: trav_spec_0 trav_spec_Suc)

lemma trav_root:
  assumes "game_node rt rt"
  shows "trav (rank rt) [] rt = first_occurrences [] (subtree rt)"
proof -
  have "finished rt (rank rt) []"
    by (simp add: finished_def)
  then show ?thesis
    using trav_spec_all [of rt "rank rt"] assms unfolding trav_spec_def subtree_def
    by (metis append_Nil in_visited_Nil le_refl)
qed

lemma iterate_root_preorder:
  assumes "game_node rt rt"
  shows "iterate rt = Some (Inr (first_occurrences [] (subtree rt)))"
  using iterate_root [OF assms] trav_root [OF assms] by simp

subsection \<open>A root built by \<^verbatim>\<open>Node.__init__\<close> is the root of a game tree\<close>

lemma Board_winner_no_rows:
  assumes "well_formed b" "num_rows b = 0"
  shows "Board_winner b = Inl (IndexError ''list index out of range'')"
proof -
  have "board b = []" "num_cols b = 0"
    using assms by (simp_all add: well_formed_def square_grid_def)
  then show ?thesis
    using assms(2)
    by (simp add: Board_winner_def rows_def columns_def main_diagonal_def)
qed

lemma Board_winner_result:
  assumes "well_formed b" "Board_winner b = Inr w"
  shows "w = first_winning_token b"
proof (cases "num_rows b = 0")
  case True
  then show ?thesis
    using Board_winner_no_rows [OF assms(1)] assms(2) by simp
next
  case False
  then show ?thesis
    using Board_winner_first_line [OF assms(1)] assms(2) by simp
qed

lemma empty_cells_filter_self:
  assumes "strong_invariant b"
  shows "filter (\<lambda>(r, c). board b ! nat r ! nat c = empty) (empty_cells b) = empty_cells b"
proof -
  have "board b ! nat (fst mv) ! nat (snd mv) = empty" if mv: "mv \<in> set (empty_cells b)" for mv
  proof -
    obtain r c where rc: "mv = (int r, int c)" "r < num_rows b" "c < num_rows b"
      by (rule empty_cell_in_range [OF assms mv])
    then show ?thesis
      using assms mv by (simp add: strong_invariant_def)
  qed
  then show ?thesis
    by (intro filter_True) (auto simp: case_prod_beta)
qed

lemma made_node_winner:
  assumes "well_formed b" "Board_winner b = Inr w"
  shows "Node b toks mv parent played
           (if w = None \<and> full b then Some ''Draw'' else w) (full b)
           (if (if w = None \<and> full b then Some ''Draw'' else w) = None
            then Some (empty_cells b) else None)
         = made_node b toks mv parent played"
  unfolding Board_winner_result [OF assms] by (simp add: made_node_def winner_field_def)

lemma root_game_node:
  assumes inv: "strong_invariant b" and t: "tokens \<noteq> []" "empty \<notin> set tokens"
    and init: "Node_init b tokens move None = Inr rt"
  shows "game_node rt rt"
proof -
  let ?b1 = "b \<lparr> num_cells := num_rows b * num_rows b \<rparr>"
  have nc: "num_cols b = num_rows b"
    using inv by (simp add: strong_invariant_def well_formed_def)
  have copy: "Board_copy b = Inr ?b1"
    by (rule Board_copy_well_formed [OF nc])
  have inv1: "strong_invariant ?b1"
    using inv by simp
  have "\<exists>b2 played. rt = made_node b2 tokens move None played \<and> strong_invariant b2 \<and>
          num_cells b2 = num_rows b2 * num_rows b2"
  proof (cases move)
    case None
    obtain w where w: "Board_winner ?b1 = Inr w"
      using init unfolding Node_init_def copy None
      by (cases "Board_winner ?b1") (simp_all add: Let_def)
    have "rt = made_node ?b1 tokens None None None"
      using init unfolding Node_init_def copy None
      by (simp add: w Let_def made_node_winner [OF strong_invariant_fields(1) [OF inv1] w])
    then show ?thesis
      using inv1 None by auto
  next
    case (Some mv)
    have hd: "getitem tokens 0 = Inr (hd tokens)"
      by (rule getitem_zero [OF t(1)])
    obtain e b2 where p: "Board_play ?b1 (fst mv) (snd mv) (hd tokens) = (e, b2)"
      by (cases "Board_play ?b1 (fst mv) (snd mv) (hd tokens)") auto
    have e: "e = None"
      using init unfolding Node_init_def copy Some
      by (cases e) (simp_all add: hd p)
    have tok: "hd tokens \<noteq> empty"
      using t by (metis hd_in_set)
    have inv2: "strong_invariant b2"
      by (rule strong_invariant_play [OF inv1 tok p [unfolded e]])
    have "num_rows b2 = num_rows ?b1"
      using num_rows_play [of ?b1 "fst mv" "snd mv" "hd tokens"] by (simp add: p)
    moreover have "num_cells b2 = num_cells ?b1"
      using p by (auto simp: Board_play_def Let_def split: if_splits option.splits)
    ultimately have cells: "num_cells b2 = num_rows b2 * num_rows b2"
      by simp
    obtain w where w: "Board_winner b2 = Inr w"
      using init unfolding Node_init_def copy Some
      by (cases "Board_winner b2") (simp_all add: hd p e Let_def)
    have "rt = made_node b2 tokens (Some mv) None (Some (hd tokens))"
      using init unfolding Node_init_def copy Some
      by (simp add: hd p e w Let_def made_node_winner [OF strong_invariant_fields(1) [OF inv2] w])
    then show ?thesis
      using inv2 cells Some by auto
  qed
  then obtain b2 played where rt: "rt = made_node b2 tokens move None played"
    and inv2: "strong_invariant b2" and cells: "num_cells b2 = num_rows b2 * num_rows b2"
    by blast
  show ?thesis
    unfolding game_node_def rt
    using inv2 cells t by (simp add: empty_cells_filter_self)
qed



section \<open>The contract of \<^verbatim>\<open>play\<close>\<close>

text \<open>
  Claim C6. On a well-formed board and with 0-indexed coordinates inside the grid,
  \<^verbatim>\<open>play(row, col, token)\<close> raises the ``already played'' \<^verbatim>\<open>IndexError\<close>, whose
  message shows \<open>row + 1\<close> and \<open>col + 1\<close>, exactly when \<open>(row, col)\<close> is in
  \<^verbatim>\<open>played_positions\<close>; that failing call leaves the board as it was; when the played
  positions and the empty cells together are all coordinates, as on every board that the
  class builds, a call on a cell that is not in \<^verbatim>\<open>played_positions\<close> raises nothing; a
  call that raises nothing has written the token into the cell, appended the position
  and the token to the two histories and removed the position from \<^verbatim>\<open>empty_cells\<close>; and
  after it a second call on the same cell raises the ``already played'' error whatever
  the token.
\<close>

theorem play_contract:
  assumes "well_formed b" "0 \<le> row" "row < int (num_rows b)" "0 \<le> col" "col < int (num_cols b)"
  shows "((fst (Board_play b row col token) =
             Some (IndexError (''Invalid Positon - ('' @ str_int (row + 1) @ '','' @ str_int (col + 1)
                                @ '') has already been played!'')))
            = ((row, col) \<in> set (played_positions b))) \<and>
         ((row, col) \<in> set (played_positions b) \<longrightarrow> snd (Board_play b row col token) = b) \<and>
         (set (played_positions b) \<union> set (empty_cells b) = set (all_cells b) \<and>
          (row, col) \<notin> set (played_positions b) \<longrightarrow> fst (Board_play b row col token) = None) \<and>
         (fst (Board_play b row col token) = None \<longrightarrow>
            snd (Board_play b row col token) =
              b \<lparr> board := (board b)[nat row := (board b ! nat row)[nat col := token]],
                  played_positions := played_positions b @ [(row, col)],
                  played_tokens := played_tokens b @ [token],
                  empty_cells := remove1 (row, col) (empty_cells b) \<rparr> \<and>
            fst (Board_play (snd (Board_play b row col token)) row col token') =
              Some (IndexError (''Invalid Positon - ('' @ str_int (row + 1) @ '','' @ str_int (col + 1)
                                @ '') has already been played!'')))"
proof -
  have sq: "square_grid (num_rows b) (board b)" and nc: "num_cols b = num_rows b"
    using assms(1) by (simp_all add: well_formed_def)
  have r: "list_index (length (board b)) row = Some (nat row)"
    using assms(2,3) by (simp add: nat_int_bounds square_grid_length [OF sq])
  have "nat row < num_rows b"
    using assms(2,3) by simp
  then have c: "list_index (length (board b ! nat row)) col = Some (nat col)"
    using assms(4,5) nc by (simp add: nat_int_bounds square_grid_nth [OF sq])
  have "(row, col) = (int (nat row), int (nat col))" "nat row < num_rows b" "nat col < num_rows b"
    using assms(2-5) nc by simp_all
  then have a: "(row, col) \<in> set (all_cells b)"
    unfolding all_cells_def set_positions nc by blast
  have s: "set (played_positions b) \<union> set (empty_cells b) = set (all_cells b) \<Longrightarrow>
           (row, col) \<notin> set (played_positions b) \<Longrightarrow> (row, col) \<in> set (empty_cells b)"
    using a by blast
  show ?thesis
    using s by (auto simp add: Board_play_def r c already_played_message_def Let_def)
qed

theorem play_contract_witness:
  "well_formed board_2x2_O \<and>
   set (played_positions board_2x2_O) \<union> set (empty_cells board_2x2_O)
     = set (all_cells board_2x2_O) \<and>
   Board_play board_2x2_O 0 0 ''X'' =
     (Some (IndexError ''Invalid Positon - (1,1) has already been played!''), board_2x2_O) \<and>
   Board_play board_2x2_O 0 1 ''X'' =
     (None, \<lparr> num_rows = 2, num_cols = 2, num_cells = 4,
              board = [[''O'', ''X''], ['' '', '' '']],
              played_positions = [(0, 0), (0, 1)], played_tokens = [''O'', ''X''],
              empty_cells = [(1, 0), (1, 1)] \<rparr>) \<and>
   fst (Board_play (snd (Board_play board_2x2_O 0 1 ''X'')) 0 1 ''O'') =
     Some (IndexError ''Invalid Positon - (1,2) has already been played!'')"
proof -
  have wf: "well_formed board_2x2_O"
    by (simp add: well_formed_def square_grid_def board_2x2_O_def)
  have i: "(0::int) \<le> 0" "(0::int) < int (num_rows board_2x2_O)" "(0::int) < int (num_cols board_2x2_O)"
      "(0::int) \<le> 1" "(1::int) < int (num_cols board_2x2_O)"
    by (simp_all add: board_2x2_O_def)
  have s: "str_int 1 = ''1''" "str_int 2 = ''2''"
    by (simp_all add: str_int_def str_nat.simps)
  have u: "set (played_positions board_2x2_O) \<union> set (empty_cells board_2x2_O)
     = set (all_cells board_2x2_O)"
    by (auto simp: board_2x2_O_def all_cells_def upt_rec)
  have f: "played_positions board_2x2_O = [(0, 0)]"
      "(board board_2x2_O)[nat 0 := (board board_2x2_O ! nat 0)[nat 1 := ''X'']]
         = [[''O'', ''X''], ['' '', '' '']]"
      "remove1 (0, 1) (empty_cells board_2x2_O) = [(1, 0), (1, 1)]"
    by (simp_all add: board_2x2_O_def)
  have e: "Board_play board_2x2_O 0 0 ''X'' =
     (Some (IndexError ''Invalid Positon - (1,1) has already been played!''), board_2x2_O)"
    using play_contract [OF wf i(1) i(2) i(1) i(3), of "''X''" "''O''"]
    by (simp add: s f prod_eq_iff)
  have n: "fst (Board_play board_2x2_O 0 1 ''X'') = None"
    using play_contract [OF wf i(1) i(2) i(4) i(5), of "''X''" "''O''"] u
    by (simp add: f)
  have p: "Board_play board_2x2_O 0 1 ''X'' =
     (None, \<lparr> num_rows = 2, num_cols = 2, num_cells = 4,
              board = [[''O'', ''X''], ['' '', '' '']],
              played_positions = [(0, 0), (0, 1)], played_tokens = [''O'', ''X''],
              empty_cells = [(1, 0), (1, 1)] \<rparr>)"
    using play_contract [OF wf i(1) i(2) i(4) i(5), of "''X''" "''O''"] n
    by (simp add: f prod_eq_iff) (simp add: board_2x2_O_def)
  have "fst (Board_play (snd (Board_play board_2x2_O 0 1 ''X'')) 0 1 ''O'') =
     Some (IndexError (''Invalid Positon - ('' @ str_int (0 + 1) @ '','' @ str_int (1 + 1)
                        @ '') has already been played!''))"
    using play_contract [OF wf i(1) i(2) i(4) i(5), of "''X''" "''O''"] n
    by blast
  then have q: "fst (Board_play (snd (Board_play board_2x2_O 0 1 ''X'')) 0 1 ''O'') =
     Some (IndexError ''Invalid Positon - (1,2) has already been played!'')"
    by (simp add: s)
  show ?thesis
    using wf u e p q by simp
qed


section \<open>The isomorphism set\<close>

text \<open>
  Claim C1 says that \<^verbatim>\<open>isomorphisms\<close> returns the board, then the rotations, then the
  reflections, without any transform whose grid equals the board's or an earlier
  transform's, so that no two elements have equal grids. The code filters the rotations
  against the board only and the reflections against the kept rotations only. On the
  board reached by \<^verbatim>\<open>play(0, 0, 'O')\<close>, \<^verbatim>\<open>play(1, 1, 'X')\<close>, \<^verbatim>\<open>play(2, 2, 'O')\<close> the
  rotations by 90 and by 270 degrees have the same grid and both are returned.
\<close>

theorem isomorphisms_duplicates:
  "map_sum id (\<lambda>b0. play_moves b0 [((0, 0), ''O''), ((1, 1), ''X''), ((2, 2), ''O'')])
     (Board_init 3 3) = Inr (None, board_3x3_OXO) \<and>
   map_sum id (map board) (isomorphisms board_3x3_OXO) =
     Inr [[[''O'', '' '', '' ''], ['' '', ''X'', '' ''], ['' '', '' '', ''O'']],
          [['' '', '' '', ''O''], ['' '', ''X'', '' ''], [''O'', '' '', '' '']],
          [['' '', '' '', ''O''], ['' '', ''X'', '' ''], [''O'', '' '', '' '']]]"
  by code_simp


section \<open>What rotations and reflections do to the cells\<close>

text \<open>
  Claim C2, as the code has it. On a well-formed \<open>n\<close> by \<open>n\<close> board and for \<open>i, j < n\<close>,
  cell \<open>(i, j)\<close> of the board returned by \<^verbatim>\<open>rotate(90)\<close>, \<^verbatim>\<open>rotate(180)\<close>,
  \<^verbatim>\<open>rotate(270)\<close> holds what the original holds at \<open>(n-1-j, i)\<close>, \<open>(n-1-i, n-1-j)\<close>,
  \<open>(j, n-1-i)\<close> (the clockwise rotations); for \<^verbatim>\<open>reflect\<close> it holds the original's
  \<open>(n-1-i, j)\<close> with the horizontal axis, \<open>(i, n-1-j)\<close> with the vertical axis,
  \<open>(n-1-j, n-1-i)\<close> with the axis named \<^verbatim>\<open>main diagonal\<close> and \<open>(j, i)\<close> with the axis
  named \<^verbatim>\<open>anti-diagonal\<close>. The two diagonal names are the other way round from the
  claim: \<^verbatim>\<open>md\<close> mirrors the grid in its anti-diagonal and \<^verbatim>\<open>ad\<close> transposes it.
\<close>

theorem transforms_cells:
  assumes "well_formed b" "i < num_rows b" "j < num_rows b"
  shows "(\<exists>r. Board_rotate b 90 = Inr r \<and>
              board r ! i ! j = board b ! (num_rows b - 1 - j) ! i) \<and>
         (\<exists>r. Board_rotate b 180 = Inr r \<and>
              board r ! i ! j = board b ! (num_rows b - 1 - i) ! (num_rows b - 1 - j)) \<and>
         (\<exists>r. Board_rotate b 270 = Inr r \<and>
              board r ! i ! j = board b ! j ! (num_rows b - 1 - i)) \<and>
         (\<forall>axis. lower axis \<in> {''horizontal'', ''h''} \<longrightarrow>
            (\<exists>r. Board_reflect b axis = Inr r \<and>
                 board r ! i ! j = board b ! (num_rows b - 1 - i) ! j)) \<and>
         (\<forall>axis. lower axis \<in> {''vertical'', ''v''} \<longrightarrow>
            (\<exists>r. Board_reflect b axis = Inr r \<and>
                 board r ! i ! j = board b ! i ! (num_rows b - 1 - j))) \<and>
         (\<forall>axis. lower axis \<in> {''main diagonal'', ''md''} \<longrightarrow>
            (\<exists>r. Board_reflect b axis = Inr r \<and>
                 board r ! i ! j = board b ! (num_rows b - 1 - j) ! (num_rows b - 1 - i))) \<and>
         (\<forall>axis. lower axis \<in> {''anti-diagonal'', ''ad''} \<longrightarrow>
            (\<exists>r. Board_reflect b axis = Inr r \<and> board r ! i ! j = board b ! j ! i))"
proof -
  let ?n = "num_rows b"
  have sq: "square_grid ?n (board b)"
    using assms(1) by (simp add: well_formed_def)
  note nth = nth_grid_rev [of ?n] nth_grid_map_rev [of ?n]
  have r90: "map rev (grid_columns ?n (board b)) ! i ! j = board b ! (?n - 1 - j) ! i"
    using assms(2,3) by (simp add: nth)
  have r180: "map rev (rev (board b)) ! i ! j = board b ! (?n - 1 - i) ! (?n - 1 - j)"
    using assms(2,3) sq by (simp add: nth)
  have r270: "rev (grid_columns ?n (board b)) ! i ! j = board b ! j ! (?n - 1 - i)"
    using assms(2,3) by (simp add: nth)
  have h: "rev (board b) ! i ! j = board b ! (?n - 1 - i) ! j"
    using assms(2,3) sq by (simp add: nth)
  have v: "map rev (board b) ! i ! j = board b ! i ! (?n - 1 - j)"
    using assms(2,3) sq by (simp add: nth)
  have md: "map rev (rev (grid_columns ?n (board b))) ! i ! j
      = board b ! (?n - 1 - j) ! (?n - 1 - i)"
    using assms(2,3) by (simp add: nth)
  have ad: "grid_columns ?n (board b) ! i ! j = board b ! j ! i"
    using assms(2,3) by simp
  show ?thesis
    by (simp add: Board_rotate_90 [OF assms(1)] Board_rotate_180 [OF assms(1)]
        Board_rotate_270 [OF assms(1)] Board_reflect_eq [OF assms(1)] r90 r180 r270 h v md ad
        del: insert_iff)
qed

theorem transforms_cells_witness:
  "(\<exists>r. Board_rotate board_2x2_O 90 = Inr r \<and> board r ! 0 ! 1 = ''O'') \<and>
   (\<exists>r. Board_rotate board_2x2_O 180 = Inr r \<and> board r ! 1 ! 1 = ''O'') \<and>
   (\<exists>r. Board_rotate board_2x2_O 270 = Inr r \<and> board r ! 1 ! 0 = ''O'') \<and>
   (\<exists>r. Board_reflect board_2x2_O ''Horizontal'' = Inr r \<and> board r ! 1 ! 0 = ''O'') \<and>
   (\<exists>r. Board_reflect board_2x2_O ''v'' = Inr r \<and> board r ! 0 ! 1 = ''O'') \<and>
   (\<exists>r. Board_reflect board_2x2_O ''MD'' = Inr r \<and> board r ! 1 ! 1 = ''O'') \<and>
   (\<exists>r. Board_reflect board_2x2_O ''ad'' = Inr r \<and> board r ! 0 ! 0 = ''O'')"
proof -
  have n: "(0::nat) < num_rows board_2x2_O" "(1::nat) < num_rows board_2x2_O"
    by (simp_all add: board_2x2_O_def)
  note wf = board_2x2_O_well_formed
  have l: "lower ''Horizontal'' = ''horizontal''" "lower ''MD'' = ''md''"
    by code_simp+
  have c: "board board_2x2_O ! 0 ! 0 = ''O''" "num_rows board_2x2_O = 2"
    by (simp_all add: board_2x2_O_def)
  show ?thesis
    using transforms_cells [OF wf n(1) n(2)] transforms_cells [OF wf n(2) n(2)]
      transforms_cells [OF wf n(2) n(1)] transforms_cells [OF wf n(1) n(1)]
    by (simp add: l c)
qed

text \<open>
  The claim as it is written fails on the 2 by 2 board with an \<^verbatim>\<open>O\<close> at \<open>(0, 0)\<close>: it
  says that cell \<open>(1, 1)\<close> of \<^verbatim>\<open>reflect('main diagonal')\<close> holds what the original holds
  at \<open>(1, 1)\<close>, and that cell \<open>(1, 1)\<close> of \<^verbatim>\<open>reflect('anti-diagonal')\<close> holds what the
  original holds at \<open>(0, 0)\<close>.
\<close>

theorem reflect_diagonals_counterexample:
  "Board_reflect board_2x2_O ''main diagonal'' =
     Inr (rectified 2 [['' '', '' ''], ['' '', ''O'']]) \<and>
   board (rectified 2 [['' '', '' ''], ['' '', ''O'']]) ! 1 ! 1 \<noteq> board board_2x2_O ! 1 ! 1 \<and>
   Board_reflect board_2x2_O ''anti-diagonal'' =
     Inr (rectified 2 [[''O'', '' ''], ['' '', '' '']]) \<and>
   board (rectified 2 [[''O'', '' ''], ['' '', '' '']]) ! 1 ! 1
     \<noteq> board board_2x2_O ! (2 - 1 - 1) ! (2 - 1 - 1)"
  by code_simp


section \<open>Iterating the root of a game tree\<close>

text \<open>
  Claim C3, for the iteration that starts at a root. Let a board be obtained from a
  freshly constructed one by successful plays of tokens other than the empty marker, let
  the list of tokens be non-empty and without the empty marker, and let \<open>rt\<close> be the
  node that \<^verbatim>\<open>Node(board, tokens, move)\<close> builds without a parent. Then the calls of
  \<^verbatim>\<open>__next__\<close> on \<^verbatim>\<open>iter(rt)\<close> return, the last one raises \<^verbatim>\<open>StopIteration\<close> and no
  other exception is raised, and the nodes yielded before it are, in this order, the
  nodes of the depth-first pre-order listing of the pruned tree below \<open>rt\<close> without
  those that \<^verbatim>\<open>Node.__eq__\<close> (same move, same token played, equal grids) finds equal to
  a node earlier in the listing. The listing unfolds the tree as many levels as \<open>rt\<close>
  has empty cells; unfolding it further does not change it.
\<close>

theorem iteration_from_root:
  assumes "Board_init n m = Inr b0" "play_moves b0 moves = (None, b)"
    and "\<forall>(p, token) \<in> set moves. token \<noteq> empty"
    and "tokens \<noteq> []" "empty \<notin> set tokens"
    and "Node_init b tokens move None = Inr rt"
  shows "iterate rt = Some (Inr (first_occurrences [] (subtree rt))) \<and>
         (\<forall>k. rank rt \<le> k \<longrightarrow> preorder k rt = subtree rt)"
proof -
  have inv: "strong_invariant b"
    using strong_invariant_play_moves [OF strong_invariant_init [OF assms(1)] assms(3) assms(2)] .
  have g: "game_node rt rt"
    by (rule root_game_node [OF inv assms(4) assms(5) assms(6)])
  have "preorder k rt = subtree rt" if "rank rt \<le> k" for k
    unfolding subtree_def using g that by (intro preorder_fuel) simp_all
  then show ?thesis
    using iterate_root_preorder [OF g] by blast
qed

text \<open>On the 2 by 2 board after \<^verbatim>\<open>play(0, 0, 'O')\<close>, with \<^verbatim>\<open>X\<close> to move: the six
  nodes that are yielded, each shown by its move, the token played and the winner.\<close>

theorem iteration_from_root_witness:
  "Board_init 2 2 = Inr (rectified 2 [['' '', '' ''], ['' '', '' '']]) \<and>
   play_moves (rectified 2 [['' '', '' ''], ['' '', '' '']]) [((0, 0), ''O'')]
     = (None, board_2x2_O) \<and>
   Node_init board_2x2_O [''X'', ''O''] None None = Inr root_2x2_O \<and>
   iterate root_2x2_O = Some (Inr (first_occurrences [] (subtree root_2x2_O))) \<and>
   map (\<lambda>n. (node_move n, token_played n, node_winner n))
     (first_occurrences [] (subtree root_2x2_O)) =
     [(None, None, None),
      (Some (0, 1), Some ''X'', None),
      (Some (1, 0), Some ''O'', Some ''O''), (Some (1, 1), Some ''O'', Some ''O''),
      (Some (1, 1), Some ''X'', None),
      (Some (0, 1), Some ''O'', Some ''O'')] \<and>
   preorder 5 root_2x2_O = subtree root_2x2_O"
proof -
  have i: "Board_init 2 2 = Inr (rectified 2 [['' '', '' ''], ['' '', '' '']])"
    by code_simp
  have p: "play_moves (rectified 2 [['' '', '' ''], ['' '', '' '']]) [((0, 0), ''O'')]
     = (None, board_2x2_O)"
    by code_simp
  have t: "\<forall>(p, token) \<in> set [((0::int, 0::int), ''O'')]. token \<noteq> empty"
    by (simp add: empty_def)
  have k: "[''X'', ''O''] \<noteq> []" "empty \<notin> set [''X'', ''O'']"
    by (simp_all add: empty_def)
  have r: "Node_init board_2x2_O [''X'', ''O''] None None = Inr root_2x2_O"
    by code_simp
  have rk: "rank root_2x2_O \<le> 5"
    by (simp add: rank_def root_2x2_O_def board_2x2_O_def)
  have y: "map (\<lambda>n. (node_move n, token_played n, node_winner n))
     (first_occurrences [] (subtree root_2x2_O)) =
     [(None, None, None),
      (Some (0, 1), Some ''X'', None),
      (Some (1, 0), Some ''O'', Some ''O''), (Some (1, 1), Some ''O'', Some ''O''),
      (Some (1, 1), Some ''X'', None),
      (Some (0, 1), Some ''O'', Some ''O'')]"
    by code_simp
  show ?thesis
    using iteration_from_root [OF i p t k r] i p r rk y by blast
qed

text \<open>
  The claim as it is written speaks of iterating any node of the tree. Started at a node
  that has a parent, the iterator does not stop when the tree below that node is
  exhausted: it climbs to the parent, which it has not visited, and yields it after its
  child. On the 1 by 1 board the root has one child, whose tree is the child alone;
  iterating the child yields the child and then the root.
\<close>

theorem iteration_from_child_counterexample:
  "Board_init 1 1 = Inr (rectified 1 [['' '']]) \<and>
   Node_init (rectified 1 [['' '']]) [''O'', ''X''] None None = Inr root_1x1 \<and>
   children root_1x1 = Inr (Some [child_1x1]) \<and>
   node_parent child_1x1 = Some root_1x1 \<and>
   subtree child_1x1 = [child_1x1] \<and>
   iterate child_1x1 = Some (Inr [child_1x1, root_1x1])"
  by code_simp


section \<open>The winner is the token of the first winning line\<close>

text \<open>
  Claim C4, for boards with at least one row and tokens other than the empty marker. Let
  a board of size \<open>n \<ge> 1\<close> be obtained from a freshly constructed one by successful calls
  of \<^verbatim>\<open>play\<close> with tokens that differ from the empty marker. On that board, and on every
  board that \<^verbatim>\<open>copy\<close>, \<^verbatim>\<open>rotate\<close> or \<^verbatim>\<open>reflect\<close> returns for it, \<^verbatim>\<open>winner()\<close> returns
  the token of the first line, in the order rows, columns, main diagonal, anti-diagonal,
  whose cells are all equal and not the empty marker, and \<^verbatim>\<open>None\<close> when there is no
  such line. With several winning lines of different tokens the first one in that order
  decides.
\<close>

theorem winner_first_line:
  assumes "Board_init n m = Inr b0" "0 < n" "play_moves b0 moves = (None, b)"
    and "\<forall>(p, token) \<in> set moves. token \<noteq> empty"
  shows "Board_winner b = Inr (first_winning_token b) \<and>
         (\<forall>b'. Board_copy b = Inr b' \<longrightarrow> Board_winner b' = Inr (first_winning_token b')) \<and>
         (\<forall>degrees b'. Board_rotate b degrees = Inr b' \<longrightarrow>
            Board_winner b' = Inr (first_winning_token b')) \<and>
         (\<forall>axis b'. Board_reflect b axis = Inr b' \<longrightarrow>
            Board_winner b' = Inr (first_winning_token b'))"
proof -
  have inv: "strong_invariant b"
    using strong_invariant_play_moves [OF strong_invariant_init [OF assms(1)] assms(4) assms(3)] .
  have "num_rows b0 = n"
    using assms(1) by (auto simp: Board_init_def split: if_splits)
  then have pos: "0 < num_rows b"
    using num_rows_play_moves [OF assms(3)] assms(2) by simp
  have nc: "num_cols b = num_rows b"
    using inv by (simp add: strong_invariant_def well_formed_def)
  have w: "Board_winner c = Inr (first_winning_token c)"
    if "strong_invariant c" "num_rows c = num_rows b" for c
    using that pos by (intro Board_winner_first_line) (simp_all add: strong_invariant_def)
  have "Board_winner b' = Inr (first_winning_token b')" if "Board_copy b = Inr b'" for b'
    using that inv by (intro w) (auto simp: Board_copy_well_formed [OF nc])
  moreover have "Board_winner b' = Inr (first_winning_token b')"
    if "Board_rotate b degrees = Inr b'" for degrees b'
    using strong_invariant_rotate [OF inv that] num_rows_rotate [OF that] by (rule w)
  moreover have "Board_winner b' = Inr (first_winning_token b')"
    if "Board_reflect b axis = Inr b'" for axis b'
    using strong_invariant_reflect [OF inv that] num_rows_reflect [OF that] by (rule w)
  ultimately show ?thesis
    using w [OF inv refl] by blast
qed

text \<open>On the 3 by 3 board after seven plays that fill the first column with \<^verbatim>\<open>O\<close> and
  the last with \<^verbatim>\<open>X\<close>, the first column is the first winning line; it is the first row
  of the board rotated by 90 degrees.\<close>

theorem winner_first_line_witness:
  "Board_init 3 3 = Inr (rectified 3 [['' '', '' '', '' ''], ['' '', '' '', '' ''], ['' '', '' '', '' '']]) \<and>
   play_moves (rectified 3 [['' '', '' '', '' ''], ['' '', '' '', '' ''], ['' '', '' '', '' '']])
     [((0, 0), ''O''), ((0, 2), ''X''), ((1, 0), ''O''), ((1, 2), ''X''), ((1, 1), ''O''),
      ((2, 2), ''X''), ((2, 0), ''O'')] =
     (None, \<lparr> num_rows = 3, num_cols = 3, num_cells = 9,
              board = [[''O'', '' '', ''X''], [''O'', ''O'', ''X''], [''O'', '' '', ''X'']],
              played_positions = [(0, 0), (0, 2), (1, 0), (1, 2), (1, 1), (2, 2), (2, 0)],
              played_tokens = [''O'', ''X'', ''O'', ''X'', ''O'', ''X'', ''O''],
              empty_cells = [(0, 1), (2, 1)] \<rparr>) \<and>
   Board_winner \<lparr> num_rows = 3, num_cols = 3, num_cells = 9,
              board = [[''O'', '' '', ''X''], [''O'', ''O'', ''X''], [''O'', '' '', ''X'']],
              played_positions = [(0, 0), (0, 2), (1, 0), (1, 2), (1, 1), (2, 2), (2, 0)],
              played_tokens = [''O'', ''X'', ''O'', ''X'', ''O'', ''X'', ''O''],
              empty_cells = [(0, 1), (2, 1)] \<rparr> = Inr (Some ''O'') \<and>
   Board_rotate \<lparr> num_rows = 3, num_cols = 3, num_cells = 9,
              board = [[''O'', '' '', ''X''], [''O'', ''O'', ''X''], [''O'', '' '', ''X'']],
              played_positions = [(0, 0), (0, 2), (1, 0), (1, 2), (1, 1), (2, 2), (2, 0)],
              played_tokens = [''O'', ''X'', ''O'', ''X'', ''O'', ''X'', ''O''],
              empty_cells = [(0, 1), (2, 1)] \<rparr> 90 =
     Inr (rectified 3 [[''O'', ''O'', ''O''], ['' '', ''O'', '' ''], [''X'', ''X'', ''X'']]) \<and>
   Board_winner (rectified 3 [[''O'', ''O'', ''O''], ['' '', ''O'', '' ''], [''X'', ''X'', ''X'']])
     = Inr (Some ''O'')"
proof -
  let ?fresh = "rectified 3 [['' '', '' '', '' ''], ['' '', '' '', '' ''], ['' '', '' '', '' '']]"
  let ?moves = "[((0::int, 0::int), ''O''), ((0, 2), ''X''), ((1, 0), ''O''), ((1, 2), ''X''),
      ((1, 1), ''O''), ((2, 2), ''X''), ((2, 0), ''O'')]"
  let ?b = "\<lparr> num_rows = 3, num_cols = 3, num_cells = 9,
              board = [[''O'', '' '', ''X''], [''O'', ''O'', ''X''], [''O'', '' '', ''X'']],
              played_positions = [(0, 0), (0, 2), (1, 0), (1, 2), (1, 1), (2, 2), (2, 0)],
              played_tokens = [''O'', ''X'', ''O'', ''X'', ''O'', ''X'', ''O''],
              empty_cells = [(0, 1), (2, 1)] \<rparr>"
  let ?r = "rectified 3 [[''O'', ''O'', ''O''], ['' '', ''O'', '' ''], [''X'', ''X'', ''X'']]"
  have i: "Board_init 3 3 = Inr ?fresh"
    by code_simp
  have n: "(0::nat) < 3"
    by simp
  have p: "play_moves ?fresh ?moves = (None, ?b)"
    by code_simp
  have t: "\<forall>(p, token) \<in> set ?moves. token \<noteq> empty"
    by (simp add: empty_def)
  have r: "Board_rotate ?b 90 = Inr ?r"
    by code_simp
  have v: "first_winning_token ?b = Some ''O''" "first_winning_token ?r = Some ''O''"
    by code_simp+
  show ?thesis
    using winner_first_line [OF i n p t] i p r v by simp
qed

text \<open>
  The claim as it is written speaks of every board. \<^verbatim>\<open>Board(0, 0)\<close> passes the
  constructor; it has no winning line, so the claim says \<^verbatim>\<open>None\<close>, but \<^verbatim>\<open>winner()\<close>
  reads element 0 of the empty main diagonal and raises.
\<close>

theorem winner_empty_board_counterexample:
  "Board_init 0 0 = Inr board_0x0 \<and>
   Board_winner board_0x0 = Inl (IndexError ''list index out of range'') \<and>
   first_winning_token board_0x0 = None"
  by code_simp


section \<open>Played positions and empty cells partition the board\<close>

text \<open>
  Claim C5 says that on every board obtained from a freshly constructed one by successful
  plays, and on every board that \<^verbatim>\<open>copy\<close>, \<^verbatim>\<open>rotate\<close> or \<^verbatim>\<open>reflect\<close> returns for it,
  \<^verbatim>\<open>played_positions\<close> and \<^verbatim>\<open>empty_cells\<close> partition the coordinates, their lengths add
  up to \<open>num_rows * num_cols\<close>, and a cell holds the empty marker exactly when its
  coordinate is in \<^verbatim>\<open>empty_cells\<close>. The code loses this for a board whose rows
  \<^verbatim>\<open>reflect('h')\<close> has handed to another board: after \<^verbatim>\<open>b = Board(2, 2)\<close>,
  \<^verbatim>\<open>r = b.reflect('h')\<close> and the successful \<^verbatim>\<open>r.play(0, 0, 'X')\<close>, the freshly
  constructed \<^verbatim>\<open>b\<close>, which satisfied the invariant before the call, holds \<^verbatim>\<open>X\<close> at
  \<open>(1, 0)\<close> with \<open>(1, 0)\<close> still in its \<^verbatim>\<open>empty_cells\<close>; the invariant holds of \<^verbatim>\<open>r\<close>.
\<close>

theorem invariant_lost_through_shared_rows:
  "invariant_after_play_on_reflection ''h'' = Inr (True, False, True)"
proof -
  have "board_invariant (rectified 2 [['' '', '' ''], ['' '', '' '']])"
    by (simp add: board_invariant_def rectified_def all_cells_def grid_cells_def row_cells_def
          empty_def upt_rec)
  moreover have "\<not> board_invariant ((rectified 2 [['' '', '' ''], ['' '', '' '']])
                    \<lparr> board := [['' '', '' ''], [''X'', '' '']] \<rparr>)"
    by (simp add: board_invariant_def rectified_def all_cells_def grid_cells_def row_cells_def
          empty_def upt_rec)
  moreover have "board_invariant (rectified 2 [[''X'', '' ''], ['' '', '' '']])"
    by (auto simp add: board_invariant_def rectified_def all_cells_def grid_cells_def
          row_cells_def empty_def upt_rec)
  ultimately show ?thesis
    by (simp add: invariant_after_play_on_reflection_def play_on_reflection_horizontal)
qed


section \<open>\<^verbatim>\<open>isomorphic_to\<close> is reflexive and symmetric\<close>

text \<open>
  Claim C7. Every well-formed board is \<^verbatim>\<open>isomorphic_to\<close> itself, and for two well-formed
  boards of the same size \<^verbatim>\<open>a.isomorphic_to(b)\<close> and \<^verbatim>\<open>b.isomorphic_to(a)\<close> return the
  same truth value (and neither raises).
\<close>

theorem isomorphic_to_reflexive_symmetric:
  assumes "well_formed a" "well_formed b" "num_rows a = num_rows b"
  shows "isomorphic_to a a = Inr True \<and>
         (\<exists>p. isomorphic_to a b = Inr p \<and> isomorphic_to b a = Inr p)"
proof -
  have sa: "square_grid (num_rows b) (board a)" and sb: "square_grid (num_rows b) (board b)"
    using assms by (simp_all add: well_formed_def)
  have "(board a \<in> set (board b # transforms (num_rows b) (board b)))
      = (board b \<in> set (board a # transforms (num_rows b) (board a)))"
    using orbit_symmetric [OF sa sb] orbit_symmetric [OF sb sa] by blast
  then show ?thesis
    using assms(3)
    by (simp add: isomorphic_to_well_formed [OF assms(1)] isomorphic_to_well_formed [OF assms(2)])
qed


theorem isomorphic_to_reflexive_symmetric_witness:
  "isomorphic_to board_2x2_O board_2x2_O = Inr True \<and>
   isomorphic_to board_2x2_O (rectified 2 [['' '', ''O''], ['' '', '' '']]) = Inr True \<and>
   isomorphic_to (rectified 2 [['' '', ''O''], ['' '', '' '']]) board_2x2_O = Inr True"
proof -
  have a: "well_formed board_2x2_O"
    by (simp add: well_formed_def square_grid_def board_2x2_O_def)
  have b: "well_formed (rectified 2 [['' '', ''O''], ['' '', '' '']])"
    by (simp add: well_formed_def square_grid_def rectified_def)
  have n: "num_rows board_2x2_O = num_rows (rectified 2 [['' '', ''O''], ['' '', '' '']])"
    by (simp add: board_2x2_O_def rectified_def)
  have e: "isomorphic_to board_2x2_O (rectified 2 [['' '', ''O''], ['' '', '' '']]) = Inr True"
    by code_simp
  show ?thesis
    using isomorphic_to_reflexive_symmetric [OF a b n] e by auto
qed


section \<open>The move chosen by the permutation search\<close>

text \<open>
  Claim C8, with the proviso that a candidate exists. Let the search be set up on some
  board. Then \<^verbatim>\<open>get_move(board, token)\<close> returns \<^verbatim>\<open>None\<close> when the board has no empty cell
  and the only empty cell when there is one. With two or more empty cells, and provided
  the outcome table has a permutation that starts with \<^verbatim>\<open>board.played_positions\<close> and
  goes on after it, it returns one of the candidate next moves (the entries right after
  that prefix in the surviving permutations) whose mean score over the surviving
  permutations (+100 for an outcome equal to the token, 0 for a draw, -100 otherwise) is
  the largest.
\<close>

theorem get_move_selects_best:
  assumes "full_tree_search board0 tokens = Inr st"
  shows "(empty_cells b = [] \<longrightarrow> get_move st rnd b token = Inr None) \<and>
         (length (empty_cells b) = 1 \<longrightarrow>
            get_move st rnd b token = Inr (Some (empty_cells b ! 0))) \<and>
         (2 \<le> length (empty_cells b) \<longrightarrow> candidate_moves st b \<noteq> [] \<longrightarrow>
            (\<exists>move. get_move st rnd b token = Inr (Some move) \<and>
               move \<in> set (candidate_moves st b) \<and>
               (\<forall>m \<in> set (candidate_moves st b).
                  mean_score st b token m \<le> mean_score st b token move)))"
proof (intro conjI impI)
  show "get_move st rnd b token = Inr None" if "empty_cells b = []"
    using that by (simp add: get_move_def)
  show "get_move st rnd b token = Inr (Some (empty_cells b ! 0))" if "length (empty_cells b) = 1"
    using that by (auto simp: get_move_def)
next
  assume two: "2 \<le> length (empty_cells b)" and cand: "candidate_moves st b \<noteq> []"
  let ?pp = "played_positions b"
  let ?k = "length ?pp"
  let ?W = "winners st"
  let ?S = "surviving st b"
  let ?P = "\<lambda>perm. take ?k perm = ?pp"
  note tab = full_tree_search_table [OF assms]
  have dW: "distinct (map fst ?W)" by (rule tab(1))
  have dS: "distinct ?S"
    using dW unfolding surviving_def by (simp add: distinct_map)
  \<comment> \<open>every enumerated permutation is longer than the prefix\<close>
  have keys: "p \<in> set (move_permuations st)" if "(p, w) \<in> set ?W" for p w
    using that tab(2) by (metis fst_conv image_eqI)
  from cand obtain p0 w0 where p0: "(p0, w0) \<in> set ?S" "?k < length p0"
    unfolding candidate_moves_def by (auto simp: filter_empty_conv)
  then have "p0 \<in> set (move_permuations st)"
    using keys unfolding surviving_def by auto
  then have L: "?k < length (empty_cells board0)"
    using tab(3) p0(2) by auto
  have long: "?k < length p" if "(p, w) \<in> set ?W" for p w
  proof -
    have "p \<in> set (move_permuations st)" using that by (rule keys)
    then show ?thesis using tab(3) L by auto
  qed
  \<comment> \<open>the filtered table of the code\<close>
  have "\<exists>D. (if ?pp = [] then Inr (0, ?W)
              else (let num_moves = ?k;
                        perm_subset = filter (\<lambda>perm. take num_moves perm = ?pp)
                                        (move_permuations st)
                    in and_then (subset_dict ?W perm_subset [])
                         (\<lambda>winners_subset. Inr (num_moves, winners_subset)))) = Inr (?k, D)
          \<and> distinct (map fst D) \<and> set D = set ?S"
  proof (cases "?pp = []")
    case True
    then show ?thesis using dW by (auto simp: surviving_def)
  next
    case False
    have "set (filter ?P (move_permuations st)) \<subseteq> fst ` set ?W"
      using tab(2) by auto
    from subset_dict_result [OF dW this, of "[]"] obtain D where
      D: "subset_dict ?W (filter ?P (move_permuations st)) [] = Inr D" "distinct (map fst D)"
        "map_of D = (\<lambda>p. if p \<in> set (filter ?P (move_permuations st)) then map_of ?W p
                          else map_of [] p)"
      by auto
    have "((p, w) \<in> set D) = ((p, w) \<in> set ?S)" for p w
    proof -
      have "((p, w) \<in> set D) = (map_of D p = Some w)"
        using D(2) by simp
      also have "\<dots> = (?P p \<and> p \<in> set (move_permuations st) \<and> map_of ?W p = Some w)"
        unfolding D(3) by simp
      also have "\<dots> = (?P p \<and> (p, w) \<in> set ?W)"
        using dW keys by auto
      finally show ?thesis by (auto simp: surviving_def)
    qed
    then have "set D = set ?S" by auto
    then show ?thesis using False D(1,2) by (simp add: Let_def)
  qed
  then obtain D where first: "(if ?pp = [] then Inr (0, ?W)
              else (let num_moves = ?k;
                        perm_subset = filter (\<lambda>perm. take num_moves perm = ?pp)
                                        (move_permuations st)
                    in and_then (subset_dict ?W perm_subset [])
                         (\<lambda>winners_subset. Inr (num_moves, winners_subset)))) = Inr (?k, D)"
    and dD: "distinct (map fst D)" and sD: "set D = set ?S"
    by blast
  have dD': "distinct D" using dD by (rule distinct_map [THEN iffD1, THEN conjunct1])
  have longD: "\<forall>(p, w) \<in> set D. ?k < length p"
    using sD long by (auto simp: surviving_def)
  \<comment> \<open>the values collected per next move\<close>
  define vals where "vals m = map (\<lambda>(p, w). outcome_value token w)
                                (filter (\<lambda>(p, w). p ! ?k = m) D)" for m
  from collect_next_moves_result [OF longD, of "[]" token] obtain N where
    N: "collect_next_moves token ?k D [] = Inr N" "distinct (map fst N)"
    and mN: "\<And>m. map_of N m = (if vals m = [] then None else Some (vals m))"
    by (auto simp: vals_def)
  have inN: "((m, vs) \<in> set N) = (vs = vals m \<and> vals m \<noteq> [])" for m vs
  proof -
    have "((m, vs) \<in> set N) = (map_of N m = Some vs)"
      using N(2) by simp
    also have "\<dots> = (vs = vals m \<and> vals m \<noteq> [])"
      unfolding mN by auto
    finally show ?thesis .
  qed
  then have ne: "\<forall>(m, vs) \<in> set N. vs \<noteq> []" by auto
  define score where "score vs = (of_int (sum_list vs) / of_nat (length vs) :: rat)" for vs :: "int list"
  define agg where "agg = map (\<lambda>(move, value). (move, score value)) N"
  have agg: "map_result (\<lambda>(move, value). and_then (mean value) (\<lambda>m. Inr (move, m))) N = Inr agg"
    unfolding agg_def score_def by (rule map_result_mean [OF ne])
  \<comment> \<open>there is something to choose from\<close>
  have "(p0, w0) \<in> set D" using p0(1) sD by simp
  then have "vals (p0 ! ?k) \<noteq> []"
    unfolding vals_def by (auto simp: filter_empty_conv)
  then have "(p0 ! ?k, vals (p0 ! ?k)) \<in> set N" using inN by simp
  then have aggne: "agg \<noteq> []" unfolding agg_def by auto
  define best where "best = map fst (filter (\<lambda>(move, value). value = Max (set (map snd agg))) agg)"
  have "Max (set (map snd agg)) \<in> set (map snd agg)"
    using aggne by (intro Max_in) auto
  then have bestne: "best \<noteq> []"
    unfolding best_def by (auto simp: filter_empty_conv)
  define move where "move = best ! (rnd mod length best)"
  have "move \<in> set best"
    unfolding move_def using bestne by simp
  then obtain v where mv: "(move, v) \<in> set agg" "v = Max (set (map snd agg))"
    unfolding best_def by auto
  have res: "get_move st rnd b token = Inr (Some move)"
  proof -
    have ne: "empty_cells b \<noteq> []" "length (empty_cells b) \<noteq> 1"
      using two by auto
    have "get_move st rnd b token = and_then (sample1 rnd best) (\<lambda>move. Inr (Some move))"
      unfolding get_move_def first
      unfolding Let_def best_def
      by (simp only: ne if_False and_then_simps prod.case N(1) agg)
    then show ?thesis
      using bestne by (simp add: sample1_def move_def)
  qed
  \<comment> \<open>scores of the code and of the specification agree\<close>
  have sc: "score (vals m) = mean_score st b token m" for m
  proof -
    let ?f = "\<lambda>(p :: position list, w). outcome_value token w"
    let ?xs = "filter (\<lambda>(p, w). p ! ?k = m) D" and ?ys = "filter (\<lambda>(p, w). p ! ?k = m) ?S"
    have xy: "distinct ?xs" "distinct ?ys" "set ?xs = set ?ys"
      using dD' dS sD by auto
    have "sum_list (map ?f ?xs) = sum_list (map ?f ?ys)" "length ?xs = length ?ys"
      using sum_length_same_set(1) [OF xy, of ?f] sum_length_same_set(2) [OF xy] by blast+
    moreover have "?f = (\<lambda>(perm, w). if w = token then 100 else if w = ''Draw'' then 0 else - 100)"
      by (auto simp: outcome_value_def WIN_def DRAW_def LOSS_def fun_eq_iff)
    ultimately show ?thesis
      unfolding score_def vals_def mean_score_def Let_def by simp
  qed
  have inagg: "((m, x) \<in> set agg) = (x = score (vals m) \<and> vals m \<noteq> [])" for m x
  proof
    assume "(m, x) \<in> set agg"
    then obtain vs where "(m, vs) \<in> set N" "x = score vs"
      unfolding agg_def by auto
    then show "x = score (vals m) \<and> vals m \<noteq> []"
      using inN by simp
  next
    assume r: "x = score (vals m) \<and> vals m \<noteq> []"
    then have "(m, vals m) \<in> set N"
      using inN by simp
    then have "(\<lambda>(move, value). (move, score value)) (m, vals m) \<in> set agg"
      unfolding agg_def set_map by (rule imageI)
    then show "(m, x) \<in> set agg"
      using r by simp
  qed
  have candS: "(m \<in> set (candidate_moves st b)) = (vals m \<noteq> [])" for m
  proof -
    have "(m \<in> set (candidate_moves st b)) = (\<exists>p w. (p, w) \<in> set ?S \<and> ?k < length p \<and> p ! ?k = m)"
      unfolding candidate_moves_def by (auto simp: image_iff)
    also have "\<dots> = (\<exists>p w. (p, w) \<in> set D \<and> p ! ?k = m)"
      using sD longD by auto
    also have "\<dots> = (vals m \<noteq> [])"
      unfolding vals_def by (auto simp: filter_empty_conv)
    finally show ?thesis .
  qed
  have "move \<in> set (candidate_moves st b)"
    using mv(1) inagg candS by simp
  moreover have "mean_score st b token m \<le> mean_score st b token move"
    if "m \<in> set (candidate_moves st b)" for m
  proof -
    have "(m, score (vals m)) \<in> set agg" using that candS inagg by simp
    then have "score (vals m) \<in> set (map snd agg)" by (metis imageI set_map snd_conv)
    then have "score (vals m) \<le> Max (set (map snd agg))" by (intro Max_ge) auto
    also have "\<dots> = score (vals move)" using mv inagg by simp
    finally show ?thesis by (simp add: sc)
  qed
  ultimately show "\<exists>move. get_move st rnd b token = Inr (Some move) \<and>
               move \<in> set (candidate_moves st b) \<and>
               (\<forall>m \<in> set (candidate_moves st b).
                  mean_score st b token m \<le> mean_score st b token move)"
    using res by blast
qed

theorem get_move_selects_best_witness:
  "full_tree_search (rectified 2 [['' '', '' ''], ['' '', '' '']]) [''O'', ''X'']
     = Inr search_2x2_fresh \<and>
   (\<exists>move. get_move search_2x2_fresh 0 (rectified 2 [['' '', '' ''], ['' '', '' '']]) ''O''
              = Inr (Some move) \<and>
           move \<in> {(0, 0), (0, 1), (1, 0), (1, 1)}) \<and>
   (\<exists>move. get_move search_2x2_fresh 5 board_2x2_O ''X'' = Inr (Some move) \<and>
           move \<in> {(0, 1), (1, 0), (1, 1)}) \<and>
   get_move search_2x2_fresh 0 (rectified 2 [[''O'', ''X''], [''X'', ''O'']]) ''O'' = Inr None \<and>
   get_move search_2x2_fresh 0 (rectified 2 [[''O'', ''X''], [''O'', '' '']]) ''X''
     = Inr (Some (1, 1))"
proof -
  let ?b0 = "rectified 2 [['' '', '' ''], ['' '', '' '']]"
  let ?full = "rectified 2 [[''O'', ''X''], [''X'', ''O'']]"
  let ?one = "rectified 2 [[''O'', ''X''], [''O'', '' '']]"
  note t = get_move_selects_best [OF search_2x2_fresh_built]
  have c0: "set (candidate_moves search_2x2_fresh ?b0) = {(0, 0), (0, 1), (1, 0), (1, 1)}"
    by code_simp
  have c1: "set (candidate_moves search_2x2_fresh board_2x2_O) = {(0, 1), (1, 0), (1, 1)}"
    by code_simp
  have e: "2 \<le> length (empty_cells ?b0)" "2 \<le> length (empty_cells board_2x2_O)"
    "empty_cells ?full = []" "length (empty_cells ?one) = 1" "empty_cells ?one ! 0 = (1, 1)"
    by code_simp+
  have n: "candidate_moves search_2x2_fresh ?b0 \<noteq> []"
    "candidate_moves search_2x2_fresh board_2x2_O \<noteq> []"
    using c0 c1 by auto
  show ?thesis
    using t [of ?b0 0 "''O''"] t [of board_2x2_O 5 "''X''"] t [of ?full 0 "''O''"]
      t [of ?one 0 "''X''"] search_2x2_fresh_built c0 c1 e n
    by (simp del: insert_iff) blast
qed

text \<open>
  Without the proviso the claim fails: the search set up on the 2 by 2 board after
  \<^verbatim>\<open>play(0, 0, 'O')\<close> is asked for a move on that board, which has three empty cells; no
  permutation of the table starts with the move already played, there is no candidate,
  and the call raises instead of returning a move.
\<close>

theorem get_move_no_candidate_counterexample:
  "full_tree_search board_2x2_O [''X'', ''O''] = Inr search_2x2_O \<and>
   length (empty_cells board_2x2_O) = 3 \<and>
   candidate_moves search_2x2_O board_2x2_O = [] \<and>
   get_move search_2x2_O 0 board_2x2_O ''X''
     = Inl (ValueError ''Sample larger than population or is negative'')"
proof -
  have "candidate_moves search_2x2_O board_2x2_O = []"
    by code_simp
  then show ?thesis
    using search_2x2_O_built get_move_no_surviving_permutation
    by (simp add: board_2x2_O_fields)
qed


section \<open>Independence of the boards returned by \<^verbatim>\<open>copy\<close>, \<^verbatim>\<open>rotate\<close> and \<^verbatim>\<open>reflect\<close>\<close>

text \<open>
  Claim C9 says that playing a move on the board returned by \<^verbatim>\<open>copy\<close>, \<^verbatim>\<open>rotate\<close> or
  \<^verbatim>\<open>reflect\<close> leaves the grid, the histories and the empty cells of the original
  unchanged. For \<^verbatim>\<open>reflect('h')\<close> the rows of the returned board are the row objects of
  the original in reverse order: after \<^verbatim>\<open>b = Board(2, 2)\<close>, \<^verbatim>\<open>r = b.reflect('h')\<close> and
  \<^verbatim>\<open>r.play(0, 0, 'X')\<close> the grid of \<^verbatim>\<open>b\<close> holds \<^verbatim>\<open>X\<close> at \<open>(1, 0)\<close>, while its
  histories are still empty and \<open>(1, 0)\<close> is still listed as an empty cell.
\<close>

theorem reflect_horizontal_shares_rows:
  "play_on_reflection ''h'' =
     Inr (rectified 2 [['' '', '' ''], ['' '', '' '']],
          (rectified 2 [['' '', '' ''], ['' '', '' '']])
            \<lparr> board := [['' '', '' ''], [''X'', '' '']] \<rparr>,
          rectified 2 [[''X'', '' ''], ['' '', '' '']])"
  by (rule play_on_reflection_horizontal)


section \<open>\<^verbatim>\<open>get_move\<close> on the boards of its own search\<close>

text \<open>
  Claim C10 says that on every board obtained from the initial board of the search by
  playing a prefix of one of the enumerated permutations, \<^verbatim>\<open>get_move\<close> raises nothing
  and returns \<^verbatim>\<open>None\<close> or a member of \<^verbatim>\<open>empty_cells\<close>. The permutations are those of
  the cells that are empty on the initial board, but the filter compares their prefixes
  with all of \<^verbatim>\<open>played_positions\<close>. When the initial board has a move on it, no
  permutation passes, \<^verbatim>\<open>best_moves\<close> is empty and \<^verbatim>\<open>random.sample\<close> raises: here the
  search is set up on the 2 by 2 board after \<^verbatim>\<open>play(0, 0, 'O')\<close> and asked for a move on
  that same board (the empty prefix), whatever the random draw.
\<close>

theorem get_move_raises_after_prior_moves:
  "Board_init 2 2 = Inr (rectified 2 [['' '', '' ''], ['' '', '' '']]) \<and>
   Board_play (rectified 2 [['' '', '' ''], ['' '', '' '']]) 0 0 ''O'' = (None, board_2x2_O) \<and>
   full_tree_search board_2x2_O [''X'', ''O''] = Inr search_2x2_O \<and>
   get_move search_2x2_O rnd board_2x2_O ''X''
     = Inl (ValueError ''Sample larger than population or is negative'')"
proof -
  have a: "Board_init 2 2 = Inr (rectified 2 [['' '', '' ''], ['' '', '' '']])"
    by code_simp
  have b: "Board_play (rectified 2 [['' '', '' ''], ['' '', '' '']]) 0 0 ''O'' = (None, board_2x2_O)"
    by code_simp
  show ?thesis
    using a b search_2x2_O_built get_move_no_surviving_permutation by simp
qed

end
